theory Spec2Isabelle
  imports Main "HOL-Library.Word"
begin

section \<open>Machine integers of nvbio-benchmarks.cu\<close>

text \<open>
  The program is built for a 64-bit target: \<open>int\<close> and \<open>uint32\<close> have 32 bits,
  \<open>size_t\<close> and \<open>uint64_t\<close> have 64. A word carries no sign; an \<open>int\<close> is read with
  \<open>sint\<close>. Unsigned arithmetic wraps around, which is what \<open>+\<close>, \<open>-\<close> and \<open>*\<close> on
  words do.
\<close>

type_synonym cint = "32 word"
type_synonym uint32 = "32 word"
type_synonym size_t = "64 word"
type_synonym uint64 = "64 word"

text \<open>The conversion of an \<open>int\<close> to \<open>size_t\<close> (or \<open>uint64_t\<close>): sign extension.\<close>

definition size_t_of_int :: "cint \<Rightarrow> size_t" where
  "size_t_of_int i = scast i"

text \<open>
  \<open>int * int\<close>. A product outside the range of \<open>int\<close> has no defined result in C++:
  \<open>None\<close>.
\<close>

definition int_mul :: "cint \<Rightarrow> cint \<Rightarrow> cint option" where
  "int_mul a b =
     (if - (2 ^ 31) \<le> sint a * sint b \<and> sint a * sint b < 2 ^ 31
      then Some (word_of_int (sint a * sint b)) else None)"

section \<open>Ways for the process to stop, and what it prints on standard error\<close>

text \<open>
  \<open>Exited c\<close>: \<open>exit(c)\<close>, or \<open>return c\<close> from \<open>main\<close>. \<open>Terminated\<close>: an exception
  that nothing catches. \<open>Undefined\<close>: the run reaches an operation to which C++ gives
  no meaning (a read or write outside an array, a signed overflow).
\<close>

datatype stop = Exited int | Terminated | Undefined

text \<open>
  The status a parent process sees after \<open>exit(c)\<close> is the low eight bits of \<open>c\<close>.
\<close>

definition wait_status :: "int \<Rightarrow> int" where
  "wait_status c = c mod 256"

text \<open>
  Modelled from the spec: the macro \<open>EXIT_FAILURE\<close> comes from \<open><cstdlib>\<close>, which is
  not part of the source; the spec calls the status of a usage error non-zero (failure).
  The value is the one of the usual C libraries.
\<close>

definition EXIT_FAILURE :: int where
  "EXIT_FAILURE = 1"

text \<open>The messages written to \<open>std::cerr\<close>, one constructor for each.\<close>

datatype diag =
    Usage
  | BatchSizeChanged cint
  | BatchExecuted int
  | BadAllocDetected
  | CouldNotOpenFile

section \<open>The class \<open>Sequences\<close>\<close>

abbreviation NUL :: char where
  "NUL \<equiv> CHR 0x00"

text \<open>
  \<open>sequences_buffer\<close> is the \<open>char\<close> array, \<open>sequences_len\<close> the \<open>int\<close> array.
  \<open>new int[n]\<close> does not initialise its elements: an element nothing was stored in
  is \<open>None\<close>.
\<close>

record Sequences =
  seq_len :: size_t
  num_alignments :: size_t
  sequences_buffer :: string
  sequences_len :: "cint option list"

text \<open>
  \<open>get_sequence(n)\<close> is \<open>sequences_buffer + seq_len * n\<close>: the model returns the offset
  into the buffer. The release build makes no range check.
\<close>

definition get_sequence :: "Sequences \<Rightarrow> size_t \<Rightarrow> size_t" where
  "get_sequence s n = seq_len s * n"

text \<open>
  The bytes of slot \<open>i\<close>: the \<open>seq_len\<close> bytes from \<open>get_sequence i\<close> on. This is a
  reading aid of the model, used to state what a slot holds.
\<close>

definition slot :: "Sequences \<Rightarrow> nat \<Rightarrow> string" where
  "slot s i = take (unat (seq_len s)) (drop (unat (seq_len s) * i) (sequences_buffer s))"

text \<open>
  \<open>line.c_str()\<close>: the characters of the line and the terminator after them. These
  are the bytes the pointer may be read at; \<open>line.c_str() + 1\<close> leaves out the first.
\<close>

definition c_str :: "string \<Rightarrow> string" where
  "c_str line = line @ [NUL]"

text \<open>
  \<open>strncpy(dest, src, n)\<close> writes exactly \<open>n\<close> bytes: the characters of \<open>src\<close> before
  its first terminator, at most \<open>n\<close> of them, then terminators. The result is the
  bytes written. \<open>src\<close> is the array that may be read: when it ends before a
  terminator or \<open>n\<close> characters were found, the read leaves the array (\<open>None\<close>).
\<close>

fun strncpy :: "string \<Rightarrow> nat \<Rightarrow> string option" where
  "strncpy src 0 = Some []"
| "strncpy [] (Suc n) = None"
| "strncpy (c # cs) (Suc n) =
     (if c = NUL then Some (replicate (Suc n) NUL)
      else map_option ((#) c) (strncpy cs n))"

text \<open>Storing \<open>bs\<close> at offset \<open>off\<close> of an array; \<open>None\<close> when it does not fit.\<close>

definition write_bytes :: "string \<Rightarrow> nat \<Rightarrow> string \<Rightarrow> string option" where
  "write_bytes buf off bs =
     (if off + length bs \<le> length buf
      then Some (take off buf @ bs @ drop (off + length bs) buf) else None)"

text \<open>
  The body of the reading loop, for the line just read and the current value of
  \<open>sequences_read\<close>: the \<open>strncpy\<close> into the slot, then the length. \<open>line.length() - 1\<close>
  is computed in \<open>size_t\<close> and stored into an \<open>int\<close>, which keeps its low 32 bits.
\<close>

definition store_line :: "cint \<Rightarrow> string \<Rightarrow> size_t \<Rightarrow> Sequences \<Rightarrow> Sequences option" where
  "store_line seq_len' line sequences_read s =
     (case strncpy (drop 1 (c_str line)) (unat (size_t_of_int seq_len')) of
        None \<Rightarrow> None
      | Some bs \<Rightarrow>
          (case write_bytes (sequences_buffer s) (unat (get_sequence s sequences_read)) bs of
             None \<Rightarrow> None
           | Some buf \<Rightarrow>
               if unat sequences_read < length (sequences_len s)
               then Some (s\<lparr>sequences_buffer := buf,
                            sequences_len := (sequences_len s)
                              [unat sequences_read := Some (ucast (of_nat (length line) - 1 :: size_t))]\<rparr>)
               else None))"

text \<open>
  \<open>while (std::getline(file, line) && sequences_read < (num_alignments*2))\<close>, over the
  lines that are left in the file. \<open>num_alignments\<close> is the constructor's \<open>int\<close>
  parameter here, so the product is an \<open>int\<close> product, converted for the comparison.
  The result is \<open>sequences_read\<close> and the object; \<open>None\<close> is undefined behaviour.
\<close>

fun read_lines ::
  "cint \<Rightarrow> cint \<Rightarrow> string list \<Rightarrow> size_t \<Rightarrow> Sequences \<Rightarrow> (size_t \<times> Sequences) option" where
  "read_lines seq_len' num_alignments' [] sequences_read s = Some (sequences_read, s)"
| "read_lines seq_len' num_alignments' (line # rest) sequences_read s =
     (case int_mul num_alignments' 2 of
        None \<Rightarrow> None
      | Some limit \<Rightarrow>
          if sequences_read < size_t_of_int limit
          then (case store_line seq_len' line sequences_read s of
                  None \<Rightarrow> None
                | Some s' \<Rightarrow> read_lines seq_len' num_alignments' rest (sequences_read + 1) s')
          else Some (sequences_read, s))"

text \<open>
  What the constructor depends on outside the program: whether each of the two
  \<open>new\<close> expressions succeeds, and the lines of the file (\<open>None\<close>: it cannot be
  opened).
\<close>

record environment =
  new_sequences_buffer :: bool
  new_sequences_len :: bool
  file_lines :: "string list option"

text \<open>
  The constructor \<open>Sequences(filepath, seq_len, num_alignments)\<close>. Only the first
  \<open>new\<close> is inside the \<open>try\<close>. \<open>Inl\<close>: the process stops in the constructor, with
  what it has printed on standard error.
\<close>

definition Sequences_ctor :: "environment \<Rightarrow> cint \<Rightarrow> cint \<Rightarrow> (diag list \<times> stop) + Sequences" where
  "Sequences_ctor env seq_len' num_alignments' =
     (let seq_bytes_to_alloc = size_t_of_int num_alignments' * size_t_of_int seq_len' * 2
      in if \<not> new_sequences_buffer env then Inl ([BadAllocDetected], Exited (- 1))
         else if \<not> new_sequences_len env then Inl ([], Terminated)
         else case file_lines env of
                None \<Rightarrow> Inl ([CouldNotOpenFile], Exited (- 1))
              | Some ls \<Rightarrow>
                  (case read_lines seq_len' num_alignments' ls 0
                          \<lparr>seq_len = size_t_of_int seq_len',
                           num_alignments = size_t_of_int num_alignments',
                           sequences_buffer = replicate (unat seq_bytes_to_alloc) NUL,
                           sequences_len = replicate (unat (size_t_of_int num_alignments' * 2)) None\<rparr> of
                     None \<Rightarrow> Inl ([], Undefined)
                   | Some (sequences_read, s) \<Rightarrow> Inr s))"

section \<open>\<open>batch_alignment_test\<close>: the host buffers\<close>

text \<open>
  \<open>memcpy(dest + doff, src + soff, n)\<close> on two arrays: the new contents of \<open>dest\<close>.
  \<open>None\<close> when the bytes read are not all inside \<open>src\<close> or the bytes written not all
  inside \<open>dest\<close>.
\<close>

definition memcpy :: "string \<Rightarrow> nat \<Rightarrow> string \<Rightarrow> nat \<Rightarrow> nat \<Rightarrow> string option" where
  "memcpy dest doff src soff n =
     (if soff + n \<le> length src \<and> doff + n \<le> length dest
      then Some (take doff dest @ take n (drop soff src) @ drop (doff + n) dest)
      else None)"

text \<open>
  The first loop, \<open>for (uint32 i = 0; i < n_strings; i++)\<close>, from the current \<open>i\<close> on:
  \<open>memcpy(&h_pattern[i * pattern_len], sequences.get_sequence(batch_offset + i*2),
  sequences.seq_len)\<close>. \<open>i * pattern_len\<close> and \<open>i*2\<close> are \<open>uint32\<close> products; the sum
  with \<open>batch_offset\<close> is a \<open>size_t\<close>.
\<close>

function copy_patterns ::
  "Sequences \<Rightarrow> size_t \<Rightarrow> uint32 \<Rightarrow> uint32 \<Rightarrow> uint32 \<Rightarrow> string \<Rightarrow> string option" where
  "copy_patterns sequences batch_offset n_strings pattern_len i h_pattern =
     (if i < n_strings
      then (case memcpy h_pattern (unat (i * pattern_len)) (sequences_buffer sequences)
                   (unat (get_sequence sequences (batch_offset + ucast (i * 2))))
                   (unat (seq_len sequences)) of
              None \<Rightarrow> None
            | Some h \<Rightarrow> copy_patterns sequences batch_offset n_strings pattern_len (i + 1) h)
      else Some h_pattern)"
  by pat_completeness auto
termination
  apply (relation "measure (\<lambda>(sequences, batch_offset, n_strings, pattern_len, i, h).
                      unat n_strings - unat i)")
   apply simp
  subgoal for sequences batch_offset n_strings pattern_len i h_pattern h
    using unsigned_less [of n_strings, where 'a = nat]
    by (auto simp: word_less_nat_alt unat_word_ariths)
  done

declare copy_patterns.simps [simp del]

text \<open>
  The second loop: \<open>memcpy(&h_text[i * text_len],
  sequences.get_sequence(batch_offset + (i+1)*2), sequences.seq_len)\<close>.
\<close>

function copy_texts ::
  "Sequences \<Rightarrow> size_t \<Rightarrow> uint32 \<Rightarrow> uint32 \<Rightarrow> uint32 \<Rightarrow> string \<Rightarrow> string option" where
  "copy_texts sequences batch_offset n_strings text_len i h_text =
     (if i < n_strings
      then (case memcpy h_text (unat (i * text_len)) (sequences_buffer sequences)
                   (unat (get_sequence sequences (batch_offset + ucast ((i + 1) * 2))))
                   (unat (seq_len sequences)) of
              None \<Rightarrow> None
            | Some h \<Rightarrow> copy_texts sequences batch_offset n_strings text_len (i + 1) h)
      else Some h_text)"
  by pat_completeness auto
termination
  apply (relation "measure (\<lambda>(sequences, batch_offset, n_strings, text_len, i, h).
                      unat n_strings - unat i)")
   apply simp
  subgoal for sequences batch_offset n_strings text_len i h_text h
    using unsigned_less [of n_strings, where 'a = nat]
    by (auto simp: word_less_nat_alt unat_word_ariths)
  done

declare copy_texts.simps [simp del]

text \<open>
  The host part of \<open>batch_alignment_test\<close>, up to the two loops: the contents of
  \<open>h_pattern\<close> and \<open>h_text\<close> that are then handed to the device. The two vectors
  start filled with zeros. \<open>None\<close> is undefined behaviour (a \<open>memcpy\<close> outside an
  array). What follows in the function runs on the device, inside the library, and
  gives back nothing but the elapsed time.
\<close>

definition batch_alignment_test :: "Sequences \<Rightarrow> size_t \<Rightarrow> uint32 \<Rightarrow> (string \<times> string) option" where
  "batch_alignment_test sequences batch_offset batch_size =
     (let n_strings = batch_size;
          pattern_len = (ucast (seq_len sequences) :: uint32);
          text_len = (ucast (seq_len sequences) :: uint32);
          h_pattern = replicate (unat (n_strings * pattern_len)) NUL;
          h_text = replicate (unat (n_strings * text_len)) NUL
      in case copy_patterns sequences batch_offset n_strings pattern_len 0 h_pattern of
           None \<Rightarrow> None
         | Some hp \<Rightarrow>
             (case copy_texts sequences batch_offset n_strings text_len 0 h_text of
                None \<Rightarrow> None
              | Some ht \<Rightarrow> Some (hp, ht)))"

text \<open>Slot \<open>k\<close> of a host buffer whose slots have \<open>stride\<close> bytes.\<close>

definition host_slot :: "nat \<Rightarrow> string \<Rightarrow> nat \<Rightarrow> string" where
  "host_slot stride h k = take stride (drop (stride * k) h)"

section \<open>\<open>main\<close>: the benchmark driver\<close>

text \<open>
  The variables of \<open>main\<close> that its loop changes, with three things the model keeps
  beside them: \<open>calls\<close>, the arguments \<open>(batch_offset, batch_size)\<close> of every call of
  \<open>batch_alignment_test\<close> in order; \<open>cerr\<close>, what was written to standard error; and
  \<open>defined\<close>, which stays true as long as every call kept its copies inside the arrays.
  \<open>total_time\<close> is a \<open>double\<close> that only ever receives whole numbers of milliseconds;
  the model keeps their exact sum. \<open>cnt\<close> counts the iterations; it stays below
  \<open>2 ^ 31\<close> whenever \<open>num_alignments\<close> is not negative, so it is kept as an unbounded
  integer.
\<close>

record driver =
  total_time :: int
  alignments_computed :: size_t
  cnt :: int
  calls :: "(size_t \<times> uint32) list"
  cerr :: "diag list"
  defined :: bool

definition driver_start :: "diag list \<Rightarrow> driver" where
  "driver_start es =
     \<lparr>total_time = 0, alignments_computed = 0, cnt = 0, calls = [], cerr = es,
      defined = True\<rparr>"

text \<open>
  One iteration of the loop: the call of \<open>batch_alignment_test\<close>, the message, the two
  counters. The \<open>size_t\<close> value \<open>curr_batch_size\<close> is passed as a \<open>uint32_t\<close>. Of the
  call, \<open>main\<close> sees the time it adds to \<open>*time\<close>: \<open>timer_ms\<close> stands for the device and
  gives the milliseconds for a call with these arguments. The host buffers of the call
  are not read by \<open>main\<close>; a call whose copies leave the arrays clears \<open>defined\<close>, and
  the loop goes on as the compiled program does.
\<close>

definition loop_body ::
  "Sequences \<Rightarrow> (size_t \<Rightarrow> uint32 \<Rightarrow> int) \<Rightarrow> size_t \<Rightarrow> cint \<Rightarrow> driver \<Rightarrow> driver" where
  "loop_body sequences timer_ms batch_size num_alignments' d =
     (let curr_batch_size = min batch_size (size_t_of_int num_alignments' - alignments_computed d)
      in d\<lparr>defined := defined d \<and>
             batch_alignment_test sequences (alignments_computed d) (ucast curr_batch_size) \<noteq> None,
           total_time := total_time d + timer_ms (alignments_computed d) (ucast curr_batch_size),
           calls := calls d @ [(alignments_computed d, ucast curr_batch_size)],
           cerr := cerr d @ [BatchExecuted (cnt d)],
           cnt := cnt d + 1,
           alignments_computed := alignments_computed d + batch_size\<rparr>)"

text \<open>
  \<open>while (alignments_computed < num_alignments)\<close>. The loop need not end: \<open>None\<close> is
  a run that stays in the loop for ever.
\<close>

partial_function (option) main_loop ::
  "Sequences \<Rightarrow> (size_t \<Rightarrow> uint32 \<Rightarrow> int) \<Rightarrow> size_t \<Rightarrow> cint \<Rightarrow> driver
     \<Rightarrow> driver option" where
  "main_loop sequences timer_ms batch_size num_alignments' d =
     (if alignments_computed d < size_t_of_int num_alignments'
      then main_loop sequences timer_ms batch_size num_alignments'
             (loop_body sequences timer_ms batch_size num_alignments' d)
      else Some d)"

declare main_loop.simps [code]

text \<open>
  The integer operand of the final report,
  \<open>num_alignments * (uint64_t)(seq_size*seq_size)\<close>: the square is an \<open>int\<close> product,
  converted afterwards. The division by the time and by \<open>1000000000\<close> that follows
  is in \<open>double\<close> and is not part of the model.
\<close>

definition cell_updates :: "cint \<Rightarrow> cint \<Rightarrow> uint64 option" where
  "cell_updates num_alignments' seq_size =
     (case int_mul seq_size seq_size of
        None \<Rightarrow> None
      | Some sq \<Rightarrow> Some (size_t_of_int num_alignments' * size_t_of_int sq))"

text \<open>
  The effective batch size: \<open>if (batch_size > num_alignments)\<close> with its message on
  standard error. The other branch writes to standard output.
\<close>

definition clamp_batch_size :: "size_t \<Rightarrow> cint \<Rightarrow> size_t \<times> diag list" where
  "clamp_batch_size batch_size num_alignments' =
     (if batch_size > size_t_of_int num_alignments'
      then (size_t_of_int num_alignments', [BatchSizeChanged num_alignments'])
      else (batch_size, []))"

text \<open>
  \<open>main\<close>. \<open>argv\<close> is the whole vector, the program's name first, and \<open>argc\<close> its
  length; \<open>atoi\<close> is the library function. The result is how the process stops and
  the driver's variables at that moment; \<open>None\<close> is a run that never stops. A run in
  which a call left the arrays, or in which the square of the report overflows, has
  no defined result.
\<close>

definition main ::
  "(string \<Rightarrow> cint) \<Rightarrow> environment \<Rightarrow> (size_t \<Rightarrow> uint32 \<Rightarrow> int) \<Rightarrow> string list
     \<Rightarrow> (stop \<times> driver) option" where
  "main atoi env timer_ms argv =
     (let argc = length argv
      in if argc < 4 \<or> argc > 5 then Some (Exited EXIT_FAILURE, driver_start [Usage])
         else
           let seq_size = atoi (argv ! 2);
               num_alignments' = atoi (argv ! 3);
               (batch_size, es) =
                  clamp_batch_size (if argc = 5 then size_t_of_int (atoi (argv ! 4)) else 50000)
                    num_alignments'
           in case Sequences_ctor env seq_size num_alignments' of
                Inl (es', st) \<Rightarrow> Some (st, driver_start (es @ es'))
              | Inr sequences \<Rightarrow>
                  (case main_loop sequences timer_ms batch_size num_alignments' (driver_start es) of
                     None \<Rightarrow> None
                   | Some d \<Rightarrow>
                       if \<not> defined d then Some (Undefined, d)
                       else (case cell_updates num_alignments' seq_size of
                               None \<Rightarrow> Some (Undefined, d)
                             | Some cells \<Rightarrow> Some (Exited 0, d))))"

text \<open>
  \<open>ceil(T / B)\<close> on natural numbers; \<open>batches_least\<close> below shows that it is the
  least \<open>k\<close> with \<open>T \<le> k * B\<close>.
\<close>

definition batches :: "nat \<Rightarrow> nat \<Rightarrow> nat" where
  "batches T B = (T + B - 1) div B"

section \<open>Properties of the driver\<close>

subsection \<open>Conversions\<close>

lemma size_t_of_int_of_nat:
  assumes "T < 2 ^ 31"
  shows "size_t_of_int (of_nat T) = of_nat T"
proof -
  have "sint (of_nat T :: cint) = int T"
    using assms by (simp add: signed_of_nat signed_take_bit_int_eq_self)
  then show ?thesis by (simp add: size_t_of_int_def scast_eq)
qed

lemma cint_nonneg:
  fixes n :: cint
  assumes "0 \<le> sint n"
  shows "nat (sint n) < 2 ^ 31" and "of_nat (nat (sint n)) = n"
proof -
  have "sint n < 2 ^ (LENGTH(32) - 1)" by (rule sint_lt)
  then show "nat (sint n) < 2 ^ 31" using assms by simp
  have "(of_nat (nat (sint n)) :: cint) = word_of_int (sint n)"
    using assms by simp
  then show "of_nat (nat (sint n)) = n" by simp
qed

lemma unat_size_t_of_int:
  fixes n :: cint
  assumes "0 \<le> sint n"
  shows "unat (size_t_of_int n) = nat (sint n)"
proof -
  have "size_t_of_int n = of_nat (nat (sint n))"
    using size_t_of_int_of_nat[OF cint_nonneg(1)[OF assms]] cint_nonneg(2)[OF assms] by simp
  moreover have "nat (sint n) < 2 ^ 64"
    using cint_nonneg(1)[OF assms] by simp
  ultimately show ?thesis by (simp add: unat_of_nat)
qed

lemma unat_of_nat_mult:
  assumes "j * unat (B :: size_t) < 2 ^ 64"
  shows "unat (of_nat j * B) = j * unat B"
proof -
  have "of_nat j * B = (of_nat (j * unat B) :: size_t)" by simp
  then show ?thesis using assms by (simp only: unat_of_nat) simp
qed

lemma unat_min: "unat (min (a :: 'a :: len word) b) = min (unat a) (unat b)"
  by (metis min_def word_less_eq_iff_unsigned)

subsection \<open>The number of batches\<close>

lemma batches_less:
  assumes "0 < B"
  shows "j < batches T B \<longleftrightarrow> j * B < T"
proof -
  have "j < batches T B \<longleftrightarrow> Suc j \<le> (T + B - 1) div B"
    by (simp add: batches_def Suc_le_eq)
  also have "\<dots> \<longleftrightarrow> Suc j * B \<le> T + B - 1"
    using assms by (simp only: less_eq_div_iff_mult_less_eq)
  also have "\<dots> \<longleftrightarrow> j * B < T"
    using assms by (cases B) auto
  finally show ?thesis .
qed

lemma batches_least:
  assumes "0 < B"
  shows "T \<le> batches T B * B" and "T \<le> k * B \<Longrightarrow> batches T B \<le> k"
  using batches_less[OF assms, of "batches T B" T] batches_less[OF assms, of k T]
  by auto

lemma batches_bound:
  assumes "0 < B"
  shows "batches T B * B < T + B"
proof -
  have "batches T B * B \<le> T + B - 1"
    unfolding batches_def by (rule div_times_less_eq_dividend)
  then show ?thesis using assms by linarith
qed

lemma batches_pos: "0 < B \<Longrightarrow> 0 < T \<Longrightarrow> 0 < batches T B"
  using batches_less[of B 0 T] by simp

lemma batches_self: "0 < T \<Longrightarrow> batches T T = 1"
  using batches_least(2)[of T T 1] batches_pos[of T T] by simp

lemma last_batch:
  assumes B: "0 < B" and T: "0 < T"
  shows "min B (T - (batches T B - 1) * B) = (if B dvd T then B else T mod B)"
proof -
  define k where "k = batches T B - 1"
  define r where "r = T - k * B"
  have k: "batches T B = Suc k" using batches_pos[OF B T] by (simp add: k_def)
  have lo: "k * B < T" using batches_less[OF B, of k T] k by simp
  have hi: "T \<le> Suc k * B" using batches_least(1)[OF B, of T] k by simp
  have r: "0 < r" "r \<le> B" and Teq: "T = k * B + r"
    using lo hi by (simp_all add: r_def)
  show ?thesis
  proof (cases "r = B")
    case True
    then have "B dvd T" using Teq by simp
    with True r show ?thesis by (simp add: r_def k_def)
  next
    case False
    with r have "r < B" by simp
    then have m: "T mod B = r" using Teq by simp
    with r have "\<not> B dvd T" by (simp add: dvd_eq_mod_eq_0)
    with m r show ?thesis by (simp add: r_def k_def)
  qed
qed


subsection \<open>The loop\<close>

lemma main_loop_funpow:
  assumes "\<forall>j<k. alignments_computed ((loop_body sq t B n ^^ j) d) < size_t_of_int n"
    and "\<not> alignments_computed ((loop_body sq t B n ^^ k) d) < size_t_of_int n"
  shows "main_loop sq t B n d = Some ((loop_body sq t B n ^^ k) d)"
  using assms
proof (induction k arbitrary: d)
  case 0
  then show ?case by (subst main_loop.simps) simp
next
  case (Suc k)
  from Suc.prems(1) have c0: "alignments_computed d < size_t_of_int n"
    by (metis funpow_0 zero_less_Suc)
  have "\<forall>j<k. alignments_computed ((loop_body sq t B n ^^ j) (loop_body sq t B n d)) < size_t_of_int n"
    using Suc.prems(1) by (metis Suc_less_eq funpow_Suc_right o_apply)
  moreover have "\<not> alignments_computed ((loop_body sq t B n ^^ k) (loop_body sq t B n d)) < size_t_of_int n"
    using Suc.prems(2) by (simp add: funpow_swap1)
  ultimately have "main_loop sq t B n (loop_body sq t B n d) =
      Some ((loop_body sq t B n ^^ k) (loop_body sq t B n d))"
    by (rule Suc.IH)
  then show ?case using c0 by (subst main_loop.simps) (simp add: funpow_swap1)
qed

lemma main_loop_stuck:
  assumes "main_loop sq t B n d = Some r"
  shows "\<not> (B = 0 \<and> alignments_computed d < size_t_of_int n)"
proof (rule main_loop.raw_induct
        [where P = "\<lambda>sq t B n d r. \<not> (B = 0 \<and> alignments_computed d < size_t_of_int n)", OF _ assms])
  fix f sq t B n d r
  assume IH: "\<And>sq t B n d r. f sq t B n d = Some r \<Longrightarrow>
                 \<not> (B = 0 \<and> alignments_computed d < size_t_of_int n)"
    and run: "(if alignments_computed d < size_t_of_int n
               then f sq t B n (loop_body sq t B n d) else Some d) = Some r"
  show "\<not> (B = 0 \<and> alignments_computed d < size_t_of_int n)"
  proof
    assume a: "B = 0 \<and> alignments_computed d < size_t_of_int n"
    with run have "f sq t B n (loop_body sq t B n d) = Some r" by simp
    from IH[OF this] a show False by (simp add: loop_body_def Let_def)
  qed
qed

lemma loop_body_sel:
  "alignments_computed (loop_body sq t B n d) = alignments_computed d + B"
  "cnt (loop_body sq t B n d) = cnt d + 1"
  "calls (loop_body sq t B n d) = calls d @
     [(alignments_computed d, ucast (min B (size_t_of_int n - alignments_computed d)))]"
  "cerr (loop_body sq t B n d) = cerr d @ [BatchExecuted (cnt d)]"
  by (simp_all add: loop_body_def Let_def)

lemma funpow_alignments_computed:
  "alignments_computed ((loop_body sq t B n ^^ k) d) = alignments_computed d + of_nat k * B"
  by (induction k) (simp_all add: loop_body_sel algebra_simps)

lemma funpow_cnt: "cnt ((loop_body sq t B n ^^ k) d) = cnt d + int k"
  by (induction k) (simp_all add: loop_body_sel)

lemma funpow_calls:
  "calls ((loop_body sq t B n ^^ k) d) = calls d @
     map (\<lambda>j. (alignments_computed d + of_nat j * B,
               ucast (min B (size_t_of_int n - (alignments_computed d + of_nat j * B)))))
         [0..<k]"
  by (induction k) (simp_all add: loop_body_sel funpow_alignments_computed)

lemma funpow_cerr:
  "cerr ((loop_body sq t B n ^^ k) d) = cerr d @ map (\<lambda>j. BatchExecuted (cnt d + int j)) [0..<k]"
  by (induction k) (simp_all add: loop_body_sel funpow_cnt)

lemma steps_small:
  fixes n :: cint and B :: size_t
  assumes n: "0 \<le> sint n" and B: "B \<noteq> 0" and j: "j \<le> batches (nat (sint n)) (unat B)"
  shows "j * unat B < 2 ^ 64"
proof -
  have Bpos: "0 < unat B" using B by (simp add: unat_gt_0)
  show ?thesis
  proof (cases "nat (sint n) \<le> unat B")
    case True
    have "batches (nat (sint n)) (unat B) \<le> 1"
      by (rule batches_least(2)[OF Bpos]) (use True in simp)
    with j have "j \<le> 1" by simp
    then have "j * unat B \<le> unat B" by (cases j) auto
    moreover have "unat B < 2 ^ 64" using unsigned_less[of B, where 'a=nat] by simp
    ultimately show ?thesis by linarith
  next
    case False
    have "j * unat B \<le> batches (nat (sint n)) (unat B) * unat B" using j by simp
    also have "\<dots> < nat (sint n) + unat B" by (rule batches_bound[OF Bpos])
    also have "\<dots> < 2 ^ 64" using False cint_nonneg(1)[OF n] by simp
    finally show ?thesis .
  qed
qed

lemma steps_offset:
  fixes n :: cint and B :: size_t
  assumes "0 \<le> sint n" "B \<noteq> 0" "j \<le> batches (nat (sint n)) (unat B)"
    and "alignments_computed d = 0"
  shows "unat (alignments_computed ((loop_body sq t B n ^^ j) d)) = j * unat B"
  using steps_small[OF assms(1-3)] assms(4)
  by (simp add: funpow_alignments_computed unat_of_nat_mult)

lemma main_loop_runs:
  fixes n :: cint and B :: size_t
  assumes n: "0 \<le> sint n" and B: "B \<noteq> 0" and d: "alignments_computed d = 0"
  shows "main_loop sq t B n d = Some ((loop_body sq t B n ^^ batches (nat (sint n)) (unat B)) d)"
proof (rule main_loop_funpow)
  have Bpos: "0 < unat B" using B by (simp add: unat_gt_0)
  note ac = steps_offset[OF n B _ d]
  show "\<forall>j<batches (nat (sint n)) (unat B).
          alignments_computed ((loop_body sq t B n ^^ j) d) < size_t_of_int n"
  proof (intro allI impI)
    fix j assume j: "j < batches (nat (sint n)) (unat B)"
    then have "j * unat B < nat (sint n)" by (simp add: batches_less[OF Bpos])
    with j show "alignments_computed ((loop_body sq t B n ^^ j) d) < size_t_of_int n"
      by (simp add: word_less_nat_alt unat_size_t_of_int[OF n] ac)
  qed
  have "\<not> batches (nat (sint n)) (unat B) * unat B < nat (sint n)"
    using batches_less[OF Bpos, of "batches (nat (sint n)) (unat B)" "nat (sint n)"] by simp
  then show "\<not> alignments_computed ((loop_body sq t B n ^^ batches (nat (sint n)) (unat B)) d)
               < size_t_of_int n"
    by (simp add: word_less_nat_alt unat_size_t_of_int[OF n] ac)
qed

lemma window_size:
  fixes n :: cint and B :: size_t
  assumes n: "0 \<le> sint n" and lt: "j * unat B < nat (sint n)" and x: "unat x = j * unat B"
  shows "unat (ucast (min B (size_t_of_int n - x)) :: uint32) = min (unat B) (nat (sint n) - j * unat B)"
proof -
  have le: "x \<le> size_t_of_int n"
    using lt x by (simp add: word_le_nat_alt unat_size_t_of_int[OF n])
  have m: "unat (min B (size_t_of_int n - x)) = min (unat B) (nat (sint n) - j * unat B)"
    by (simp add: unat_min unat_sub[OF le] unat_size_t_of_int[OF n] x)
  have "min (unat B) (nat (sint n) - j * unat B) < 2 ^ 32"
    using cint_nonneg(1)[OF n] by simp
  then show ?thesis
    by (simp add: unsigned_ucast_eq m take_bit_nat_eq_self)
qed


lemma loop_result:
  fixes num :: cint and batch_size :: size_t
  assumes n: "0 \<le> sint num" and Bn: "batch_size \<noteq> 0"
  shows "\<exists>d. main_loop sequences timer_ms batch_size num (driver_start es) = Some d \<and>
           cnt d = int (batches (nat (sint num)) (unat batch_size)) \<and>
           unat (alignments_computed d) = batches (nat (sint num)) (unat batch_size) * unat batch_size \<and>
           map (\<lambda>(off, sz). (unat off, unat sz)) (calls d) =
             map (\<lambda>j. (j * unat batch_size, min (unat batch_size) (nat (sint num) - j * unat batch_size)))
                 [0..<batches (nat (sint num)) (unat batch_size)]"
proof -
  define T where "T = nat (sint num)"
  define B where "B = unat batch_size"
  define k where "k = batches T B"
  define d0 where "d0 = driver_start es"
  define d where "d = (loop_body sequences timer_ms batch_size num ^^ k) d0"
  define f where "f = (\<lambda>j. (alignments_computed d0 + of_nat j * batch_size,
      (ucast (min batch_size (size_t_of_int num - (alignments_computed d0 + of_nat j * batch_size))) :: uint32)))"
  have Bpos: "0 < B" using Bn by (simp add: B_def unat_gt_0)
  have d0: "alignments_computed d0 = 0" "calls d0 = []" "cnt d0 = 0"
    by (simp_all add: d0_def driver_start_def)
  have run: "main_loop sequences timer_ms batch_size num d0 = Some d"
    unfolding d_def k_def T_def B_def by (rule main_loop_runs[OF n Bn d0(1)])
  have c: "cnt d = int k" by (simp add: d_def funpow_cnt d0)
  have a: "unat (alignments_computed d) = k * B"
    unfolding d_def B_def by (rule steps_offset[OF n Bn _ d0(1)]) (simp add: k_def T_def B_def)
  have cs: "calls d = map f [0..<k]"
    by (simp add: d_def funpow_calls d0 f_def)
  have win: "(\<lambda>(off, sz). (unat off, unat sz)) (f j) = (j * B, min B (T - j * B))" if "j < k" for j
  proof -
    from that have lt: "j * B < T" by (simp add: k_def batches_less[OF Bpos])
    have "j * unat batch_size < 2 ^ 64"
      by (rule steps_small[OF n Bn]) (use that in \<open>simp add: k_def T_def B_def\<close>)
    then have off: "unat (alignments_computed d0 + of_nat j * batch_size) = j * unat batch_size"
      by (simp add: d0 unat_of_nat_mult)
    show ?thesis
      using window_size[OF n lt[unfolded B_def T_def] off] off
      by (simp add: f_def B_def T_def)
  qed
  have m: "map (\<lambda>(off, sz). (unat off, unat sz)) (calls d) = map (\<lambda>j. (j * B, min B (T - j * B))) [0..<k]"
    by (simp add: cs win)
  from run c a m show ?thesis
    unfolding d0_def k_def T_def B_def by blast
qed

lemma windows_sum: "(\<Sum>j\<leftarrow>[0..<k]. min B (T - j * B)) = min T (k * B)"
  by (induction k) (auto simp: min_def)

lemma sizes_add_up:
  fixes num :: cint and batch_size :: size_t
  assumes n: "0 \<le> sint num" and Bn: "batch_size \<noteq> 0"
  shows "\<exists>d. main_loop sequences timer_ms batch_size num (driver_start es) = Some d \<and>
           sum_list (map (\<lambda>(off, sz). unat sz) (calls d)) = nat (sint num)"
proof -
  from loop_result[OF n Bn, of sequences timer_ms es] obtain d where
    run: "main_loop sequences timer_ms batch_size num (driver_start es) = Some d"
    and m: "map (\<lambda>(off, sz). (unat off, unat sz)) (calls d) =
             map (\<lambda>j. (j * unat batch_size, min (unat batch_size) (nat (sint num) - j * unat batch_size)))
                 [0..<batches (nat (sint num)) (unat batch_size)]"
    by blast
  have "map (\<lambda>(off, sz). unat sz) (calls d) = map snd (map (\<lambda>(off, sz). (unat off, unat sz)) (calls d))"
    by (simp add: case_prod_unfold)
  also have "\<dots> = map (\<lambda>j. min (unat batch_size) (nat (sint num) - j * unat batch_size))
                 [0..<batches (nat (sint num)) (unat batch_size)]"
    by (simp add: m)
  finally have "sum_list (map (\<lambda>(off, sz). unat sz) (calls d)) =
      min (nat (sint num)) (batches (nat (sint num)) (unat batch_size) * unat batch_size)"
    by (simp add: windows_sum)
  also have "\<dots> = nat (sint num)"
    using batches_least(1)[of "unat batch_size" "nat (sint num)"] Bn by (simp add: unat_gt_0)
  finally show ?thesis using run by blast
qed

lemma counter_final:
  fixes num :: cint and batch_size :: size_t
  assumes n: "0 \<le> sint num" and Bn: "batch_size \<noteq> 0"
  shows "\<exists>d. main_loop sequences timer_ms batch_size num (driver_start es) = Some d \<and>
           unat (alignments_computed d) = batches (nat (sint num)) (unat batch_size) * unat batch_size \<and>
           (unat (alignments_computed d) = nat (sint num) \<longleftrightarrow> unat batch_size dvd nat (sint num))"
proof -
  from loop_result[OF n Bn, of sequences timer_ms es] obtain d where
    run: "main_loop sequences timer_ms batch_size num (driver_start es) = Some d"
    and a: "unat (alignments_computed d) = batches (nat (sint num)) (unat batch_size) * unat batch_size"
    by blast
  have Bpos: "0 < unat batch_size" using Bn by (simp add: unat_gt_0)
  have "batches (nat (sint num)) (unat batch_size) * unat batch_size = nat (sint num)
      \<longleftrightarrow> unat batch_size dvd nat (sint num)"
  proof
    assume "batches (nat (sint num)) (unat batch_size) * unat batch_size = nat (sint num)"
    then show "unat batch_size dvd nat (sint num)" by (metis dvd_triv_right)
  next
    assume "unat batch_size dvd nat (sint num)"
    then obtain q where q: "nat (sint num) = q * unat batch_size"
      by (metis dvd_div_mult_self)
    have "batches (nat (sint num)) (unat batch_size) \<le> q"
      by (rule batches_least(2)[OF Bpos]) (simp add: q)
    then have "batches (nat (sint num)) (unat batch_size) * unat batch_size \<le> q * unat batch_size"
      by simp
    moreover have "nat (sint num) \<le> batches (nat (sint num)) (unat batch_size) * unat batch_size"
      by (rule batches_least(1)[OF Bpos])
    ultimately show "batches (nat (sint num)) (unat batch_size) * unat batch_size = nat (sint num)"
      unfolding q by (rule order_antisym)
  qed
  with run a show ?thesis by auto
qed

text \<open>
  C3: for a pair count \<open>num \<ge> 1\<close> and a batch size between 1 and \<open>num\<close>, the loop ends
  after \<open>ceil(num / batch_size)\<close> calls of \<open>batch_alignment_test\<close>; call \<open>j\<close> (from 0)
  gets the offset \<open>j * batch_size\<close> and the size \<open>min batch_size (num - j * batch_size)\<close>;
  the last call has size \<open>num mod batch_size\<close>, or \<open>batch_size\<close> when that divides \<open>num\<close>.
\<close>

theorem batch_windows:
  fixes num :: cint and batch_size :: size_t
  assumes "1 \<le> sint num" and "1 \<le> unat batch_size" and "unat batch_size \<le> nat (sint num)"
  shows "\<exists>d. main_loop sequences timer_ms batch_size num (driver_start es) = Some d \<and>
           length (calls d) = batches (nat (sint num)) (unat batch_size) \<and>
           map (\<lambda>(off, sz). (unat off, unat sz)) (calls d) =
             map (\<lambda>j. (j * unat batch_size, min (unat batch_size) (nat (sint num) - j * unat batch_size)))
                 [0..<batches (nat (sint num)) (unat batch_size)] \<and>
           unat (snd (last (calls d))) =
             (if unat batch_size dvd nat (sint num) then unat batch_size
              else nat (sint num) mod unat batch_size)"
proof -
  define T where "T = nat (sint num)"
  define B where "B = unat batch_size"
  define k where "k = batches T B"
  define d0 where "d0 = driver_start es"
  define d where "d = (loop_body sequences timer_ms batch_size num ^^ k) d0"
  define f where "f = (\<lambda>j. (alignments_computed d0 + of_nat j * batch_size,
      (ucast (min batch_size (size_t_of_int num - (alignments_computed d0 + of_nat j * batch_size))) :: uint32)))"
  have n: "0 \<le> sint num" and Bn: "batch_size \<noteq> 0" and Bpos: "0 < B" and Tpos: "0 < T"
    using assms by (auto simp: B_def T_def)
  have d0: "alignments_computed d0 = 0" "calls d0 = []"
    by (simp_all add: d0_def driver_start_def)
  have run: "main_loop sequences timer_ms batch_size num d0 = Some d"
    unfolding d_def k_def T_def B_def by (rule main_loop_runs[OF n Bn d0(1)])
  have cs: "calls d = map f [0..<k]"
    by (simp add: d_def funpow_calls d0 f_def)
  have win: "(\<lambda>(off, sz). (unat off, unat sz)) (f j) = (j * B, min B (T - j * B))" if "j < k" for j
  proof -
    from that have lt: "j * B < T" by (simp add: k_def batches_less[OF Bpos])
    have "j * unat batch_size < 2 ^ 64"
      by (rule steps_small[OF n Bn]) (use that in \<open>simp add: k_def T_def B_def\<close>)
    then have off: "unat (alignments_computed d0 + of_nat j * batch_size) = j * unat batch_size"
      by (simp add: d0 unat_of_nat_mult)
    show ?thesis
      using window_size[OF n lt[unfolded B_def T_def] off] off
      by (simp add: f_def B_def T_def)
  qed
  have m: "map (\<lambda>(off, sz). (unat off, unat sz)) (calls d) = map (\<lambda>j. (j * B, min B (T - j * B))) [0..<k]"
    by (simp add: cs win)
  have kpos: "0 < k" unfolding k_def by (rule batches_pos[OF Bpos Tpos])
  then have "last (calls d) = f (k - 1)"
    by (simp add: cs last_map)
  then have "unat (snd (last (calls d))) = snd ((\<lambda>(off, sz). (unat off, unat sz)) (f (k - 1)))"
    by (simp add: case_prod_unfold)
  also have "\<dots> = min B (T - (k - 1) * B)" using kpos by (simp add: win)
  also have "\<dots> = (if B dvd T then B else T mod B)"
    unfolding k_def by (rule last_batch[OF Bpos Tpos])
  finally have l: "unat (snd (last (calls d))) = (if B dvd T then B else T mod B)" .
  from run m l cs show ?thesis
    unfolding d0_def k_def T_def B_def by auto
qed

theorem batch_windows_witness:
  "\<exists>d. main_loop \<lparr>seq_len = 1, num_alignments = 5, sequences_buffer = ''ATCGATCGAT'',
                    sequences_len = replicate 10 (Some 1)\<rparr>
         (\<lambda>off sz. 3) 2 5 (driver_start []) = Some d \<and>
       length (calls d) = 3 \<and>
       map (\<lambda>(off, sz). (unat off, unat sz)) (calls d) = [(0, 2), (2, 2), (4, 1)] \<and>
       unat (snd (last (calls d))) = 1"
proof -
  have b: "batches 5 2 = 3" by code_simp
  have e: "map (\<lambda>j. (j * 2, min 2 (5 - j * 2))) [0..<3] = [(0, 2), (2, 2), (4, 1 :: nat)]"
    by code_simp
  show ?thesis
    using batch_windows[of 5 2 "\<lparr>seq_len = 1, num_alignments = 5,
        sequences_buffer = ''ATCGATCGAT'', sequences_len = replicate 10 (Some 1)\<rparr>" "\<lambda>off sz. 3" "[]"]
    by (simp add: e b)
qed

text \<open>
  C10: for \<open>num_alignments \<ge> 0\<close> and a batch size of at least 1 the loop ends, after
  exactly \<open>ceil(num_alignments / batch_size)\<close> iterations. With a batch size of 0
  and \<open>num_alignments > 0\<close> it never ends: an iteration leaves \<open>alignments_computed\<close>
  as it was.
\<close>

theorem loop_terminates:
  fixes num :: cint and batch_size :: size_t
  assumes "0 \<le> sint num"
  shows "(1 \<le> unat batch_size \<longrightarrow>
            (\<exists>d. main_loop sequences timer_ms batch_size num (driver_start es) = Some d \<and>
                 cnt d = int (batches (nat (sint num)) (unat batch_size)) \<and>
                 length (calls d) = batches (nat (sint num)) (unat batch_size))) \<and>
         (batch_size = 0 \<and> 0 < sint num \<longrightarrow>
            main_loop sequences timer_ms batch_size num (driver_start es) = None \<and>
            alignments_computed (loop_body sequences timer_ms batch_size num (driver_start es)) =
              alignments_computed (driver_start es))"
proof (intro conjI impI)
  assume "1 \<le> unat batch_size"
  then have Bn: "batch_size \<noteq> 0" by auto
  have d0: "alignments_computed (driver_start es) = 0" by (simp add: driver_start_def)
  show "\<exists>d. main_loop sequences timer_ms batch_size num (driver_start es) = Some d \<and>
           cnt d = int (batches (nat (sint num)) (unat batch_size)) \<and>
           length (calls d) = batches (nat (sint num)) (unat batch_size)"
    using main_loop_runs[OF assms Bn d0, of sequences timer_ms]
    by (simp add: funpow_cnt funpow_calls driver_start_def)
next
  assume a: "batch_size = 0 \<and> 0 < sint num"
  then have "0 < unat (size_t_of_int num)" using unat_size_t_of_int[OF assms] by simp
  then have "alignments_computed (driver_start es) < size_t_of_int num"
    by (simp add: driver_start_def word_less_nat_alt)
  with a main_loop_stuck[of sequences timer_ms batch_size num "driver_start es"]
  show "main_loop sequences timer_ms batch_size num (driver_start es) = None"
    by (cases "main_loop sequences timer_ms batch_size num (driver_start es)") auto
  from a show "alignments_computed (loop_body sequences timer_ms batch_size num (driver_start es)) =
      alignments_computed (driver_start es)"
    by (simp add: loop_body_sel)
qed

theorem loop_terminates_witness:
  "(\<exists>d. main_loop \<lparr>seq_len = 1, num_alignments = 10, sequences_buffer = replicate 20 CHR ''A'',
                     sequences_len = replicate 20 (Some 1)\<rparr>
          (\<lambda>off sz. 3) 4 10 (driver_start []) = Some d \<and> cnt d = 3 \<and> length (calls d) = 3) \<and>
   main_loop \<lparr>seq_len = 1, num_alignments = 10, sequences_buffer = replicate 20 CHR ''A'',
               sequences_len = replicate 20 (Some 1)\<rparr>
     (\<lambda>off sz. 3) 0 10 (driver_start []) = None"
proof -
  have b: "batches 10 4 = 3" by code_simp
  show ?thesis
    using loop_terminates[of 10 4 "\<lparr>seq_len = 1, num_alignments = 10,
          sequences_buffer = replicate 20 CHR ''A'', sequences_len = replicate 20 (Some 1)\<rparr>"
          "\<lambda>off sz. 3" "[]"]
      loop_terminates[of 10 0 "\<lparr>seq_len = 1, num_alignments = 10,
          sequences_buffer = replicate 20 CHR ''A'', sequences_len = replicate 20 (Some 1)\<rparr>"
          "\<lambda>off sz. 3" "[]"]
    by (simp add: b)
qed

text \<open>
  C2: the specification states that the count of processed pairs ends at the pair
  count; the loop adds the
  nominal \<open>batch_size\<close>, not \<open>curr_batch_size\<close>. With 5 pairs in batches of 2 the three
  calls have the sizes 2, 2 and 1, and the counter ends at 6.
\<close>

theorem counter_overshoots:
  "\<exists>d. main_loop sequences timer_ms 2 5 (driver_start es) = Some d \<and>
       map snd (calls d) = [2, 2, 1] \<and> alignments_computed d = 6"
proof -
  have b: "batches 5 2 = Suc (Suc (Suc 0))" by code_simp
  have "main_loop sequences timer_ms 2 5 (driver_start es) =
      Some ((loop_body sequences timer_ms 2 5 ^^ Suc (Suc (Suc 0))) (driver_start es))"
    using main_loop_runs[of 5 2 "driver_start es" sequences timer_ms] by (simp add: b driver_start_def)
  then show ?thesis
    by (simp add: loop_body_def driver_start_def Let_def size_t_of_int_def)
qed


lemma ucast_size_t_of_int:
  fixes n :: cint
  assumes "0 \<le> sint n"
  shows "(ucast (size_t_of_int n) :: uint32) = n"
proof -
  have "unat (ucast (size_t_of_int n) :: uint32) = nat (sint n)"
    using cint_nonneg(1)[OF assms]
    by (simp add: unsigned_ucast_eq unat_size_t_of_int[OF assms] take_bit_nat_eq_self)
  then have "(of_nat (unat (ucast (size_t_of_int n) :: uint32)) :: uint32) = of_nat (nat (sint n))"
    by simp
  then show ?thesis using cint_nonneg(2)[OF assms] by simp
qed

lemma clamp_larger:
  fixes num b :: cint
  assumes "0 \<le> sint num" "sint num < sint b"
  shows "clamp_batch_size (size_t_of_int b) num = (size_t_of_int num, [BatchSizeChanged num])"
proof -
  have "0 \<le> sint b" using assms by simp
  then have "unat (size_t_of_int num) < unat (size_t_of_int b)"
    using assms by (simp add: unat_size_t_of_int)
  then show ?thesis by (simp add: clamp_batch_size_def word_less_nat_alt)
qed

lemma single_batch:
  fixes num :: cint
  assumes "1 \<le> sint num"
  shows "main_loop sequences timer_ms (size_t_of_int num) num (driver_start es) =
           Some (loop_body sequences timer_ms (size_t_of_int num) num (driver_start es))"
proof -
  have n: "0 \<le> sint num" using assms by simp
  have u: "unat (size_t_of_int num) = nat (sint num)" by (rule unat_size_t_of_int[OF n])
  have B: "size_t_of_int num \<noteq> 0" using assms u by (auto simp flip: unat_gt_0)
  have "batches (nat (sint num)) (unat (size_t_of_int num)) = 1"
    using assms by (simp add: u batches_self)
  with main_loop_runs[OF n B, of "driver_start es" sequences timer_ms] show ?thesis
    by (simp add: driver_start_def)
qed

text \<open>
  C4: with five arguments in \<open>argv\<close>, \<open>num_alignments \<ge> 1\<close> and a batch size on the
  command line greater than it, the batch size becomes \<open>num_alignments\<close>, the message
  goes to standard error, and (once the sequences are read) there is exactly one call
  of \<open>batch_alignment_test\<close>, for all the pairs. How the run stops is left open here:
  the one call is the case of C1 in which the last text is read behind the store.
\<close>

theorem batch_size_clamped:
  fixes atoi :: "string \<Rightarrow> cint"
  assumes "length argv = 5"
    and "1 \<le> sint (atoi (argv ! 3))"
    and "sint (atoi (argv ! 3)) < sint (atoi (argv ! 4))"
    and "Sequences_ctor env (atoi (argv ! 2)) (atoi (argv ! 3)) = Inr sequences"
  shows "clamp_batch_size (size_t_of_int (atoi (argv ! 4))) (atoi (argv ! 3)) =
           (size_t_of_int (atoi (argv ! 3)), [BatchSizeChanged (atoi (argv ! 3))]) \<and>
         (\<exists>st d. main atoi env timer_ms argv = Some (st, d) \<and>
            calls d = [(0, atoi (argv ! 3))] \<and>
            cerr d = [BatchSizeChanged (atoi (argv ! 3)), BatchExecuted 0])"
proof -
  define num where "num = atoi (argv ! 3)"
  have n: "0 \<le> sint num" and n1: "1 \<le> sint num" using assms(2) by (simp_all add: num_def)
  have c: "clamp_batch_size (size_t_of_int (atoi (argv ! 4))) num =
      (size_t_of_int num, [BatchSizeChanged num])"
    by (rule clamp_larger[OF n]) (use assms(3) in \<open>simp add: num_def\<close>)
  define d where "d = loop_body sequences timer_ms (size_t_of_int num) num (driver_start [BatchSizeChanged num])"
  have run: "main_loop sequences timer_ms (size_t_of_int num) num (driver_start [BatchSizeChanged num]) = Some d"
    unfolding d_def by (rule single_batch[OF n1])
  have cs: "calls d = [(0, num)]" "cerr d = [BatchSizeChanged num, BatchExecuted 0]"
    by (simp_all add: d_def loop_body_sel driver_start_def ucast_size_t_of_int[OF n])
  have "\<exists>st. main atoi env timer_ms argv = Some (st, d)"
    using assms(1,4) c run
    by (simp add: main_def Let_def num_def split: option.split)
  with c cs show ?thesis unfolding num_def by blast
qed

theorem batch_size_clamped_witness:
  "\<exists>st d. main (\<lambda>s. if s = ''4'' then 4 else if s = ''2'' then 2 else if s = ''9'' then 9 else 0)
        \<lparr>new_sequences_buffer = True, new_sequences_len = True,
         file_lines = Some [''>AAAA'', ''<TTTT'', ''>CCCC'', ''<GGGG'']\<rparr>
        (\<lambda>off sz. 3) [''nvbio-benchmarks'', ''pairs.seq'', ''4'', ''2'', ''9''] = Some (st, d) \<and>
      calls d = [(0, 2)] \<and> cerr d = [BatchSizeChanged 2, BatchExecuted 0]"
proof -
  have s: "Sequences_ctor \<lparr>new_sequences_buffer = True, new_sequences_len = True,
         file_lines = Some [''>AAAA'', ''<TTTT'', ''>CCCC'', ''<GGGG'']\<rparr> 4 2 =
      Inr \<lparr>seq_len = 4, num_alignments = 2, sequences_buffer = ''AAAATTTTCCCCGGGG'',
           sequences_len = [Some 4, Some 4, Some 4, Some 4]\<rparr>"
    by code_simp
  show ?thesis
    using batch_size_clamped[of "[''nvbio-benchmarks'', ''pairs.seq'', ''4'', ''2'', ''9'']"
        "\<lambda>s. if s = ''4'' then 4 else if s = ''2'' then 2 else if s = ''9'' then 9 else 0"
        "\<lparr>new_sequences_buffer = True, new_sequences_len = True,
         file_lines = Some [''>AAAA'', ''<TTTT'', ''>CCCC'', ''<GGGG'']\<rparr>" _ "\<lambda>off sz. 3"]
    by (simp add: s)
qed


lemma ctor_bad_alloc:
  "\<not> new_sequences_buffer env \<Longrightarrow>
     Sequences_ctor env seq_size num = Inl ([BadAllocDetected], Exited (- 1))"
  by (simp add: Sequences_ctor_def)

lemma ctor_cannot_open:
  "new_sequences_buffer env \<Longrightarrow> new_sequences_len env \<Longrightarrow> file_lines env = None \<Longrightarrow>
     Sequences_ctor env seq_size num = Inl ([CouldNotOpenFile], Exited (- 1))"
  by (simp add: Sequences_ctor_def)

lemma ctor_exit_code:
  "Sequences_ctor env seq_size num = Inl (es, Exited c) \<Longrightarrow> c = - 1"
  by (auto simp: Sequences_ctor_def Let_def split: if_splits option.splits prod.splits)

text \<open>
  C8: with fewer than 3 or more than 4 arguments after the program's name, \<open>main\<close>
  prints the usage text on standard error and returns \<open>EXIT_FAILURE\<close>; when the
  sequence buffer cannot be allocated, or the file cannot be opened, the process exits
  with \<open>-1\<close>; all three are non-zero statuses. The array of lengths is allocated
  outside the \<open>try\<close>: when that allocation fails the exception ends the process, which
  is no exit with status 0 either. A run that exits does so with status 0 exactly when
  the arguments were accepted and the constructor returned.
\<close>

theorem exit_statuses:
  fixes atoi :: "string \<Rightarrow> cint"
  shows
  "(length argv < 4 \<or> 5 < length argv \<longrightarrow>
      main atoi env timer_ms argv = Some (Exited EXIT_FAILURE, driver_start [Usage]) \<and>
      wait_status EXIT_FAILURE \<noteq> 0) \<and>
   (4 \<le> length argv \<and> length argv \<le> 5 \<and> \<not> new_sequences_buffer env \<longrightarrow>
      (\<exists>d. main atoi env timer_ms argv = Some (Exited (- 1), d) \<and> BadAllocDetected \<in> set (cerr d)) \<and>
      wait_status (- 1) \<noteq> 0) \<and>
   (4 \<le> length argv \<and> length argv \<le> 5 \<and> new_sequences_buffer env \<and> new_sequences_len env \<and>
    file_lines env = None \<longrightarrow>
      (\<exists>d. main atoi env timer_ms argv = Some (Exited (- 1), d) \<and> CouldNotOpenFile \<in> set (cerr d))) \<and>
   (4 \<le> length argv \<and> length argv \<le> 5 \<and> new_sequences_buffer env \<and> \<not> new_sequences_len env \<longrightarrow>
      (\<exists>d. main atoi env timer_ms argv = Some (Terminated, d))) \<and>
   (\<forall>c d. main atoi env timer_ms argv = Some (Exited c, d) \<longrightarrow>
      (c = 0 \<longleftrightarrow> 4 \<le> length argv \<and> length argv \<le> 5 \<and>
         (\<exists>sequences. Sequences_ctor env (atoi (argv ! 2)) (atoi (argv ! 3)) = Inr sequences)))"
proof (intro conjI impI allI)
  assume "length argv < 4 \<or> 5 < length argv"
  then show "main atoi env timer_ms argv = Some (Exited EXIT_FAILURE, driver_start [Usage])"
    by (auto simp: main_def)
  show "wait_status EXIT_FAILURE \<noteq> 0" by (simp add: wait_status_def EXIT_FAILURE_def)
next
  assume a: "4 \<le> length argv \<and> length argv \<le> 5 \<and> \<not> new_sequences_buffer env"
  then show "\<exists>d. main atoi env timer_ms argv = Some (Exited (- 1), d) \<and> BadAllocDetected \<in> set (cerr d)"
    by (auto simp: main_def Let_def ctor_bad_alloc driver_start_def split: prod.split)
  show "wait_status (- 1) \<noteq> 0" by (simp add: wait_status_def)
next
  assume a: "4 \<le> length argv \<and> length argv \<le> 5 \<and> new_sequences_buffer env \<and>
    new_sequences_len env \<and> file_lines env = None"
  then show "\<exists>d. main atoi env timer_ms argv = Some (Exited (- 1), d) \<and> CouldNotOpenFile \<in> set (cerr d)"
    by (auto simp: main_def Let_def ctor_cannot_open driver_start_def split: prod.split)
next
  assume "4 \<le> length argv \<and> length argv \<le> 5 \<and> new_sequences_buffer env \<and> \<not> new_sequences_len env"
  then show "\<exists>d. main atoi env timer_ms argv = Some (Terminated, d)"
    by (auto simp: main_def Let_def Sequences_ctor_def split: prod.split)
next
  fix c d
  assume r: "main atoi env timer_ms argv = Some (Exited c, d)"
  show "c = 0 \<longleftrightarrow> 4 \<le> length argv \<and> length argv \<le> 5 \<and>
         (\<exists>sequences. Sequences_ctor env (atoi (argv ! 2)) (atoi (argv ! 3)) = Inr sequences)"
  proof (cases "length argv < 4 \<or> 5 < length argv")
    case True
    with r show ?thesis by (auto simp: main_def EXIT_FAILURE_def)
  next
    case False
    show ?thesis
    proof (cases "Sequences_ctor env (atoi (argv ! 2)) (atoi (argv ! 3))")
      case (Inl p)
      obtain es st where p: "p = (es, st)" by (cases p)
      with r False Inl have "st = Exited c"
        by (auto simp: main_def Let_def split: prod.splits)
      with Inl p have "c = - 1" by (auto dest: ctor_exit_code)
      with Inl show ?thesis by simp
    next
      case (Inr s)
      with r False have "c = 0"
        by (auto simp: main_def Let_def split: prod.splits option.splits if_splits)
      with Inr False show ?thesis by auto
    qed
  qed
qed

theorem exit_statuses_witness:
  "main (\<lambda>s. if s = ''4'' then 4 else if s = ''2'' then 2 else if s = ''1'' then 1 else 0)
        \<lparr>new_sequences_buffer = True, new_sequences_len = True,
         file_lines = Some [''>AAAA'', ''<TTTT'', ''>CCCC'', ''<GGGG'']\<rparr>
        (\<lambda>off sz. 3) [''nvbio-benchmarks'', ''pairs.seq'', ''4''] =
     Some (Exited EXIT_FAILURE, driver_start [Usage]) \<and>
   (\<exists>d. main (\<lambda>s. if s = ''4'' then 4 else if s = ''2'' then 2 else if s = ''1'' then 1 else 0)
        \<lparr>new_sequences_buffer = False, new_sequences_len = True,
         file_lines = Some [''>AAAA'', ''<TTTT'', ''>CCCC'', ''<GGGG'']\<rparr>
        (\<lambda>off sz. 3) [''nvbio-benchmarks'', ''pairs.seq'', ''4'', ''2''] = Some (Exited (- 1), d)) \<and>
   (\<exists>d. main (\<lambda>s. if s = ''4'' then 4 else if s = ''2'' then 2 else if s = ''1'' then 1 else 0)
        \<lparr>new_sequences_buffer = True, new_sequences_len = True, file_lines = None\<rparr>
        (\<lambda>off sz. 3) [''nvbio-benchmarks'', ''pairs.seq'', ''4'', ''2''] = Some (Exited (- 1), d)) \<and>
   (\<exists>d. main (\<lambda>s. if s = ''4'' then 4 else if s = ''2'' then 2 else if s = ''1'' then 1 else 0)
        \<lparr>new_sequences_buffer = True, new_sequences_len = False,
         file_lines = Some [''>AAAA'', ''<TTTT'', ''>CCCC'', ''<GGGG'']\<rparr>
        (\<lambda>off sz. 3) [''nvbio-benchmarks'', ''pairs.seq'', ''4'', ''2''] = Some (Terminated, d)) \<and>
   (\<exists>d. main (\<lambda>s. if s = ''4'' then 4 else if s = ''2'' then 2 else if s = ''1'' then 1 else 0)
        \<lparr>new_sequences_buffer = True, new_sequences_len = True,
         file_lines = Some [''>AAAA'', ''<TTTT'', ''>CCCC'', ''<GGGG'']\<rparr>
        (\<lambda>off sz. 3) [''nvbio-benchmarks'', ''pairs.seq'', ''4'', ''2'', ''1''] = Some (Exited 0, d))"
proof -
  let ?atoi = "\<lambda>s. if s = ''4'' then 4 else if s = ''2'' then 2 else if s = ''1'' then 1 else (0 :: cint)"
  let ?ls = "[''>AAAA'', ''<TTTT'', ''>CCCC'', ''<GGGG'']"
  let ?env = "\<lparr>new_sequences_buffer = True, new_sequences_len = True, file_lines = Some ?ls\<rparr>"
  let ?argv = "[''nvbio-benchmarks'', ''pairs.seq'', ''4'', ''2'']"
  let ?argv1 = "[''nvbio-benchmarks'', ''pairs.seq'', ''4'', ''2'', ''1'']"
  have "map_option fst (main ?atoi ?env (\<lambda>off sz. 3) ?argv1) = Some (Exited 0)"
    by code_simp
  then have run: "\<exists>d. main ?atoi ?env (\<lambda>off sz. 3) ?argv1 = Some (Exited 0, d)"
    by (cases "main ?atoi ?env (\<lambda>off sz. 3) ?argv1") auto
  then obtain d where d: "main ?atoi ?env (\<lambda>off sz. 3) ?argv1 = Some (Exited 0, d)" ..
  have "(0 :: int) = 0 \<longleftrightarrow> 4 \<le> length ?argv1 \<and> length ?argv1 \<le> 5 \<and>
      (\<exists>sequences. Sequences_ctor ?env (?atoi (?argv1 ! 2)) (?atoi (?argv1 ! 3)) = Inr sequences)"
    using exit_statuses[of ?argv1 ?atoi ?env "\<lambda>off sz. 3"] d by blast
  moreover have "main ?atoi ?env (\<lambda>off sz. 3) [''nvbio-benchmarks'', ''pairs.seq'', ''4''] =
      Some (Exited EXIT_FAILURE, driver_start [Usage])"
    using exit_statuses[of "[''nvbio-benchmarks'', ''pairs.seq'', ''4'']" ?atoi ?env "\<lambda>off sz. 3"]
    by simp
  moreover have "\<exists>d. main ?atoi (?env\<lparr>new_sequences_buffer := False\<rparr>) (\<lambda>off sz. 3) ?argv =
      Some (Exited (- 1), d)"
    using exit_statuses[of ?argv ?atoi "?env\<lparr>new_sequences_buffer := False\<rparr>" "\<lambda>off sz. 3"]
    by auto
  moreover have "\<exists>d. main ?atoi (?env\<lparr>file_lines := None\<rparr>) (\<lambda>off sz. 3) ?argv =
      Some (Exited (- 1), d)"
    using exit_statuses[of ?argv ?atoi "?env\<lparr>file_lines := None\<rparr>" "\<lambda>off sz. 3"]
    by auto
  moreover have "\<exists>d. main ?atoi (?env\<lparr>new_sequences_len := False\<rparr>) (\<lambda>off sz. 3) ?argv =
      Some (Terminated, d)"
    using exit_statuses[of ?argv ?atoi "?env\<lparr>new_sequences_len := False\<rparr>" "\<lambda>off sz. 3"]
    by auto
  ultimately show ?thesis using run by simp
qed

section \<open>Properties of the sequence store and of the host buffers\<close>

lemma strncpy_length: "strncpy src k = Some bs \<Longrightarrow> length bs = k"
  by (induction src k arbitrary: bs rule: strncpy.induct) (auto split: if_splits)

lemma strncpy_Nil: "strncpy [] k = Some bs \<Longrightarrow> k = 0"
  by (cases k) auto

lemma strncpy_c_str:
  "strncpy (xs @ [NUL]) k =
     Some (takeWhile (\<lambda>c. c \<noteq> NUL) (take k xs) @
           replicate (k - length (takeWhile (\<lambda>c. c \<noteq> NUL) (take k xs))) NUL)"
proof (induction xs arbitrary: k)
  case Nil
  then show ?case by (cases k) auto
next
  case (Cons x xs)
  then show ?case by (cases k) auto
qed

lemma takeWhile_take_prefix:
  "takeWhile P (take k xs) = take (length (takeWhile P (take k xs))) xs"
proof -
  have "takeWhile P (take k xs) = take (length (takeWhile P (take k xs))) (take k xs)"
    by (rule takeWhile_eq_take)
  moreover have "length (takeWhile P (take k xs)) \<le> k"
    using length_takeWhile_le[of P "take k xs"] by simp
  ultimately show ?thesis by (simp add: min_def)
qed

lemma write_bytes_length: "write_bytes buf off bs = Some buf' \<Longrightarrow> length buf' = length buf"
  by (auto simp: write_bytes_def split: if_splits)

lemma write_bytes_here:
  assumes "write_bytes buf off bs = Some buf'"
  shows "take (length bs) (drop off buf') = bs"
  using assms by (auto simp: write_bytes_def split: if_splits)

lemma write_bytes_nth:
  assumes "write_bytes buf off bs = Some buf'" and "p < off \<or> off + length bs \<le> p"
  shows "buf' ! p = buf ! p"
proof -
  from assms(1) have fit: "off + length bs \<le> length buf"
    and buf': "buf' = take off buf @ bs @ drop (off + length bs) buf"
    by (auto simp: write_bytes_def split: if_splits)
  from assms(2) show ?thesis
  proof
    assume "p < off"
    with fit show ?thesis by (simp add: buf' nth_append)
  next
    assume a: "off + length bs \<le> p"
    then have "\<not> p < off" "\<not> p - off < length bs" by simp_all
    moreover have "off + length bs + (p - off - length bs) = p" using a by simp
    ultimately show ?thesis using fit by (simp add: buf' nth_append)
  qed
qed

lemma slot_nth:
  assumes "q < unat (seq_len s)" "unat (seq_len s) * i + q < length (sequences_buffer s)"
  shows "slot s i ! q = sequences_buffer s ! (unat (seq_len s) * i + q)"
  using assms by (simp add: slot_def)

lemma slot_length:
  "length (slot s i) = min (unat (seq_len s)) (length (sequences_buffer s) - unat (seq_len s) * i)"
  by (simp add: slot_def)

lemma slot_other:
  assumes w: "write_bytes (sequences_buffer s) (unat (seq_len s) * m) bs = Some buf'"
    and bs: "length bs = unat (seq_len s)"
    and s': "seq_len s' = seq_len s" "sequences_buffer s' = buf'"
    and i: "i \<noteq> m"
  shows "slot s' i = slot s i"
proof (rule nth_equalityI)
  show "length (slot s' i) = length (slot s i)"
    using write_bytes_length[OF w] by (simp add: slot_length s')
next
  fix q assume "q < length (slot s' i)"
  then have q: "q < unat (seq_len s)" "unat (seq_len s) * i + q < length (sequences_buffer s)"
    using write_bytes_length[OF w] by (auto simp: slot_length s')
  have "unat (seq_len s) * i + q < unat (seq_len s) * m \<or>
        unat (seq_len s) * m + length bs \<le> unat (seq_len s) * i + q"
  proof (cases "i < m")
    case True
    then have "Suc i \<le> m" by simp
    then have "unat (seq_len s) * Suc i \<le> unat (seq_len s) * m" by (rule mult_le_mono2)
    with q show ?thesis by simp
  next
    case False
    with i have "Suc m \<le> i" by simp
    then have "unat (seq_len s) * Suc m \<le> unat (seq_len s) * i" by (rule mult_le_mono2)
    then show ?thesis by (simp add: bs)
  qed
  then have "buf' ! (unat (seq_len s) * i + q) = sequences_buffer s ! (unat (seq_len s) * i + q)"
    by (rule write_bytes_nth[OF w])
  with q show "slot s' i ! q = slot s i ! q"
    using write_bytes_length[OF w] by (simp add: slot_def s')
qed

lemma slot_here:
  assumes w: "write_bytes (sequences_buffer s) (unat (seq_len s) * m) bs = Some buf'"
    and bs: "length bs = unat (seq_len s)"
    and s': "seq_len s' = seq_len s" "sequences_buffer s' = buf'"
  shows "slot s' m = bs"
  using write_bytes_here[OF w] by (simp add: slot_def s' bs)


lemma sint_word_of_int:
  assumes "- (2 ^ 31) \<le> k" "k < 2 ^ 31"
  shows "sint (word_of_int k :: cint) = k"
  using assms by (simp add: signed_of_int signed_take_bit_int_eq_self)

lemma limit_val:
  fixes N :: cint
  assumes "int_mul N 2 = Some lim" and "0 \<le> sint N"
  shows "unat (size_t_of_int lim) = 2 * nat (sint N)"
proof -
  from assms(1) have r: "sint N * 2 < 2 ^ 31" and lim: "lim = word_of_int (sint N * 2)"
    by (auto simp: int_mul_def split: if_splits)
  have "sint lim = sint N * 2"
    unfolding lim by (rule sint_word_of_int) (use r assms(2) in simp_all)
  then show ?thesis
    using unat_size_t_of_int[of lim] assms(2) by (simp add: nat_mult_distrib)
qed

lemma store_line_effect:
  fixes S :: cint
  assumes st: "store_line S line n s = Some s'"
    and S: "0 \<le> sint S" and len: "seq_len s = size_t_of_int S" and n: "unat n < 2 ^ 32"
  shows "seq_len s' = seq_len s"
    and "num_alignments s' = num_alignments s"
    and "length (sequences_buffer s') = length (sequences_buffer s)"
    and "length (sequences_len s') = length (sequences_len s)"
    and "strncpy (drop 1 (c_str line)) (unat (seq_len s)) = Some (slot s' (unat n))"
    and "i \<noteq> unat n \<Longrightarrow> slot s' i = slot s i"
    and "sequences_len s' ! unat n = Some (ucast (of_nat (length line) - 1 :: size_t))"
    and "i \<noteq> unat n \<Longrightarrow> sequences_len s' ! i = sequences_len s ! i"
proof -
  from st obtain bs buf where
    bs: "strncpy (drop 1 (c_str line)) (unat (size_t_of_int S)) = Some bs"
    and w: "write_bytes (sequences_buffer s) (unat (get_sequence s n)) bs = Some buf"
    and r: "unat n < length (sequences_len s)"
    and s': "s' = s\<lparr>sequences_buffer := buf,
                sequences_len := (sequences_len s)
                  [unat n := Some (ucast (of_nat (length line) - 1 :: size_t))]\<rparr>"
    by (auto simp: store_line_def split: option.splits if_splits)
  have Sn: "unat (seq_len s) < 2 ^ 31"
    using cint_nonneg(1)[OF S] by (simp add: len unat_size_t_of_int[OF S])
  have "unat (seq_len s) * unat n \<le> 2 ^ 31 * 2 ^ 32"
    using Sn n by (intro mult_mono) simp_all
  then have "unat (seq_len s) * unat n < 2 ^ LENGTH(64)" by simp
  then have off: "unat (get_sequence s n) = unat (seq_len s) * unat n"
    by (simp only: get_sequence_def unat_mult_lem)
  have l: "length bs = unat (seq_len s)"
    using strncpy_length[OF bs] by (simp add: len)
  note w' = w[unfolded off]
  show "seq_len s' = seq_len s" "num_alignments s' = num_alignments s"
    by (simp_all add: s')
  show "length (sequences_buffer s') = length (sequences_buffer s)"
    using write_bytes_length[OF w] by (simp add: s')
  show "length (sequences_len s') = length (sequences_len s)" by (simp add: s')
  have "slot s' (unat n) = bs"
    by (rule slot_here[OF w' l]) (simp_all add: s')
  with bs show "strncpy (drop 1 (c_str line)) (unat (seq_len s)) = Some (slot s' (unat n))"
    by (simp add: len)
  show "slot s' i = slot s i" if "i \<noteq> unat n"
    by (rule slot_other[OF w' l _ _ that]) (simp_all add: s')
  show "sequences_len s' ! unat n = Some (ucast (of_nat (length line) - 1 :: size_t))"
    using r by (simp add: s')
  show "sequences_len s' ! i = sequences_len s ! i" if "i \<noteq> unat n"
    using that by (simp add: s')
qed


lemma read_lines_inv:
  fixes S N :: cint
  assumes "read_lines S N ls n s = Some (n', s')"
    and S: "0 \<le> sint S" and N: "0 \<le> sint N" and "seq_len s = size_t_of_int S"
  shows "seq_len s' = seq_len s \<and>
         length (sequences_buffer s') = length (sequences_buffer s) \<and>
         length (sequences_len s') = length (sequences_len s) \<and>
         unat n' = unat n + min (length ls) (2 * nat (sint N) - unat n) \<and>
         (\<forall>i. i < unat n \<or> unat n' \<le> i \<longrightarrow>
              slot s' i = slot s i \<and> sequences_len s' ! i = sequences_len s ! i) \<and>
         (\<forall>j. j < unat n' - unat n \<longrightarrow>
              strncpy (drop 1 (c_str (ls ! j))) (unat (seq_len s)) = Some (slot s' (unat n + j)) \<and>
              sequences_len s' ! (unat n + j) =
                Some (ucast (of_nat (length (ls ! j)) - 1 :: size_t)))"
  using assms(1,4)
proof (induction ls arbitrary: n s)
  case Nil
  then show ?case by simp
next
  case (Cons line rest)
  from Cons.prems(1) obtain lim where lim: "int_mul N 2 = Some lim"
    by (auto split: option.splits)
  note lv = limit_val[OF lim N]
  show ?case
  proof (cases "n < size_t_of_int lim")
    case False
    then have "2 * nat (sint N) \<le> unat n" by (simp add: word_less_nat_alt lv)
    moreover from False Cons.prems(1) lim have "n' = n" "s' = s" by simp_all
    ultimately show ?thesis by simp
  next
    case True
    then have nlt: "unat n < 2 * nat (sint N)" by (simp add: word_less_nat_alt lv)
    have n32: "unat n < 2 ^ 32" using nlt cint_nonneg(1)[OF N] by simp
    then have "unat n + unat (1 :: size_t) < 2 ^ LENGTH(64)" by simp
    then have n1: "unat (n + 1) = unat n + 1" by (simp only: unat_add_lem) simp
    from True Cons.prems(1) lim obtain s1 where
      st: "store_line S line n s = Some s1"
      and rest: "read_lines S N rest (n + 1) s1 = Some (n', s')"
      by (auto split: option.splits)
    note e = store_line_effect[OF st S Cons.prems(2) n32]
    have len1: "seq_len s1 = size_t_of_int S" using e(1) Cons.prems(2) by simp
    note IH = Cons.IH[OF rest len1, unfolded n1 e(1) e(3) e(4)]
    from IH have cnt: "unat n' = unat n + 1 + min (length rest) (2 * nat (sint N) - (unat n + 1))"
      and same: "seq_len s' = seq_len s" "length (sequences_buffer s') = length (sequences_buffer s)"
        "length (sequences_len s') = length (sequences_len s)"
      and ih_keep: "\<And>i. i < unat n + 1 \<or> unat n' \<le> i \<Longrightarrow>
        slot s' i = slot s1 i \<and> sequences_len s' ! i = sequences_len s1 ! i"
      and ih_got: "\<And>j. j < unat n' - (unat n + 1) \<Longrightarrow>
        strncpy (drop 1 (c_str (rest ! j))) (unat (seq_len s)) = Some (slot s' (unat n + 1 + j)) \<and>
        sequences_len s' ! (unat n + 1 + j) = Some (ucast (of_nat (length (rest ! j)) - 1 :: size_t))"
      by blast+
    have keep: "slot s' i = slot s i \<and> sequences_len s' ! i = sequences_len s ! i"
      if "i < unat n \<or> unat n' \<le> i" for i
    proof -
      from that cnt have a: "i < unat n + 1 \<or> unat n' \<le> i" and b: "i \<noteq> unat n" by auto
      from ih_keep[OF a] e(6)[OF b] e(8)[OF b] show ?thesis by simp
    qed
    have got: "strncpy (drop 1 (c_str ((line # rest) ! j))) (unat (seq_len s)) =
          Some (slot s' (unat n + j)) \<and>
        sequences_len s' ! (unat n + j) =
          Some (ucast (of_nat (length ((line # rest) ! j)) - 1 :: size_t))"
      if "j < unat n' - unat n" for j
    proof (cases j)
      case 0
      have "slot s' (unat n) = slot s1 (unat n) \<and>
          sequences_len s' ! unat n = sequences_len s1 ! unat n"
        by (rule ih_keep) simp
      with e(5) e(7) 0 show ?thesis by simp
    next
      case (Suc j')
      with that have "j' < unat n' - (unat n + 1)" by simp
      from ih_got[OF this] Suc show ?thesis by simp
    qed
    have "unat n' = unat n + min (length (line # rest)) (2 * nat (sint N) - unat n)"
      using cnt nlt unfolding length_Cons by arith
    with same keep got show ?thesis by blast
  qed
qed


lemma ucast_of_nat_down: "(ucast (of_nat k :: size_t) :: cint) = of_nat k"
  by (rule bit_word_eqI) (auto simp: bit_simps)

lemma ucast_minus_one_down: "(ucast (- 1 :: size_t) :: cint) = - 1"
  by (rule bit_word_eqI) (auto simp: bit_simps)

lemma sint_of_nat_small: "k < 2 ^ 31 \<Longrightarrow> sint (of_nat k :: cint) = int k"
  by (simp add: signed_of_nat signed_take_bit_int_eq_self)

lemma stored_length_value:
  assumes "L \<le> 2 ^ 31"
  shows "sint (ucast (of_nat L - 1 :: size_t) :: cint) = int L - 1"
proof (cases L)
  case 0
  then show ?thesis by (simp add: ucast_minus_one_down)
next
  case (Suc k)
  then have "(of_nat L - 1 :: size_t) = of_nat k" by simp
  moreover have "k < 2 ^ 31" using assms Suc by simp
  ultimately show ?thesis using Suc by (simp only: ucast_of_nat_down sint_of_nat_small)
qed

lemma buffer_size:
  fixes S N :: cint
  assumes S: "0 \<le> sint S" and N: "0 \<le> sint N"
  shows "unat (size_t_of_int N * size_t_of_int S * 2) = nat (sint N) * nat (sint S) * 2"
proof -
  have "nat (sint N) * nat (sint S) \<le> 2 ^ 31 * 2 ^ 31"
    using cint_nonneg(1)[OF S] cint_nonneg(1)[OF N] by (intro mult_mono) simp_all
  then have b: "nat (sint N) * nat (sint S) * 2 < 2 ^ 64" by simp
  have "size_t_of_int N * size_t_of_int S * 2 = of_nat (unat (size_t_of_int N) * unat (size_t_of_int S) * 2)"
    by simp
  then show ?thesis
    using b by (simp only: unat_size_t_of_int[OF S] unat_size_t_of_int[OF N] unat_of_nat) simp
qed

lemma len_size:
  fixes N :: cint
  assumes N: "0 \<le> sint N"
  shows "unat (size_t_of_int N * 2) = nat (sint N) * 2"
proof -
  have b: "nat (sint N) * 2 < 2 ^ 64" using cint_nonneg(1)[OF N] by simp
  have "size_t_of_int N * 2 = of_nat (unat (size_t_of_int N) * 2)" by simp
  then show ?thesis
    using b by (simp only: unat_size_t_of_int[OF N] unat_of_nat) simp
qed

lemma ctor_reads:
  fixes S N :: cint
  assumes f: "file_lines env = Some ls" and c: "Sequences_ctor env S N = Inr st"
    and S: "0 \<le> sint S" and N: "0 \<le> sint N"
  shows "seq_len st = size_t_of_int S"
    and "length (sequences_buffer st) = nat (sint N) * nat (sint S) * 2"
    and "length (sequences_len st) = nat (sint N) * 2"
    and "i < length ls \<Longrightarrow> i < 2 * nat (sint N) \<Longrightarrow>
           strncpy (drop 1 (c_str (ls ! i))) (nat (sint S)) = Some (slot st i) \<and>
           sequences_len st ! i = Some (ucast (of_nat (length (ls ! i)) - 1 :: size_t))"
    and "length ls \<le> i \<Longrightarrow> i < 2 * nat (sint N) \<Longrightarrow>
           slot st i = replicate (nat (sint S)) NUL \<and> sequences_len st ! i = None"
proof -
  define s0 where "s0 = \<lparr>seq_len = size_t_of_int S, num_alignments = size_t_of_int N,
      sequences_buffer = replicate (unat (size_t_of_int N * size_t_of_int S * 2)) NUL,
      sequences_len = replicate (unat (size_t_of_int N * 2)) None\<rparr>"
  from c f obtain n' where r: "read_lines S N ls 0 s0 = Some (n', st)"
    by (auto simp: Sequences_ctor_def Let_def s0_def split: if_splits option.splits)
  have l0: "seq_len s0 = size_t_of_int S" by (simp add: s0_def)
  note inv = read_lines_inv[OF r S N l0]
  from inv have n': "unat n' = min (length ls) (2 * nat (sint N))"
    and keep: "\<And>i. unat n' \<le> i \<Longrightarrow> slot st i = slot s0 i \<and> sequences_len st ! i = sequences_len s0 ! i"
    and got: "\<And>j. j < unat n' \<Longrightarrow>
        strncpy (drop 1 (c_str (ls ! j))) (unat (seq_len s0)) = Some (slot st j) \<and>
        sequences_len st ! j = Some (ucast (of_nat (length (ls ! j)) - 1 :: size_t))"
    by simp_all
  show "seq_len st = size_t_of_int S" using inv l0 by simp
  show "length (sequences_buffer st) = nat (sint N) * nat (sint S) * 2"
    using inv by (simp add: s0_def buffer_size[OF S N])
  show "length (sequences_len st) = nat (sint N) * 2"
    using inv by (simp add: s0_def len_size[OF N])
  show "strncpy (drop 1 (c_str (ls ! i))) (nat (sint S)) = Some (slot st i) \<and>
        sequences_len st ! i = Some (ucast (of_nat (length (ls ! i)) - 1 :: size_t))"
    if "i < length ls" "i < 2 * nat (sint N)"
    using got[of i] that n' by (simp add: l0 unat_size_t_of_int[OF S])
  show "slot st i = replicate (nat (sint S)) NUL \<and> sequences_len st ! i = None"
    if "length ls \<le> i" "i < 2 * nat (sint N)"
  proof -
    have "unat n' \<le> i" using that n' by simp
    from keep[OF this] have k: "slot st i = slot s0 i" "sequences_len st ! i = sequences_len s0 ! i"
      by simp_all
    have "Suc i \<le> 2 * nat (sint N)" using that by simp
    then have "nat (sint S) * Suc i \<le> nat (sint S) * (2 * nat (sint N))" by (rule mult_le_mono2)
    then have "nat (sint S) \<le> nat (sint N) * nat (sint S) * 2 - nat (sint S) * i"
      by (simp add: algebra_simps)
    then have "slot s0 i = replicate (nat (sint S)) NUL"
      by (simp add: slot_def s0_def buffer_size[OF S N] unat_size_t_of_int[OF S] min_def)
    moreover have "sequences_len s0 ! i = None"
      using that by (simp add: s0_def len_size[OF N])
    ultimately show ?thesis using k by simp
  qed
qed

text \<open>
  What the slot of a line holds once the constructor has returned: exactly \<open>seq_len\<close>
  bytes, namely the characters of the line after its marker up to the first zero byte,
  at most \<open>seq_len\<close> of them, followed by zeros. For a line without a zero byte that is
  the first \<open>seq_len\<close> characters of the sequence (truncation) followed by zeros up to
  \<open>seq_len\<close> (padding), so every byte from the sequence's length on is zero.
\<close>

lemma slot_padded_and_truncated:
  fixes S N :: cint
  assumes "file_lines env = Some ls" and "Sequences_ctor env S N = Inr st"
    and "0 \<le> sint S" and "0 \<le> sint N"
    and "i < length ls" and "i < 2 * nat (sint N)"
  shows "length (slot st i) = nat (sint S)"
    and "slot st i =
           takeWhile (\<lambda>c. c \<noteq> NUL) (take (nat (sint S)) (drop 1 (ls ! i))) @
           replicate (nat (sint S) -
             length (takeWhile (\<lambda>c. c \<noteq> NUL) (take (nat (sint S)) (drop 1 (ls ! i))))) NUL"
    and "NUL \<notin> set (drop 1 (ls ! i)) \<Longrightarrow>
           slot st i = take (nat (sint S)) (drop 1 (ls ! i)) @
             replicate (nat (sint S) - (length (ls ! i) - 1)) NUL"
    and "length (ls ! i) - 1 \<le> k \<Longrightarrow> k < nat (sint S) \<Longrightarrow> slot st i ! k = NUL"
proof -
  define line where "line = ls ! i"
  define Sn where "Sn = nat (sint S)"
  define tw where "tw = takeWhile (\<lambda>c. c \<noteq> NUL) (take Sn (drop 1 line))"
  have cp: "strncpy (drop 1 (c_str line)) Sn = Some (slot st i)"
    using ctor_reads(4)[OF assms] by (simp add: line_def Sn_def)
  have len: "length (slot st i) = Sn" by (rule strncpy_length[OF cp])
  have sl: "slot st i = tw @ replicate (Sn - length tw) NUL"
  proof (cases line)
    case Nil
    with cp have "Sn = 0" by (auto simp: c_str_def dest: strncpy_Nil)
    with len show ?thesis by (simp add: tw_def)
  next
    case (Cons c rest)
    with cp show ?thesis by (simp add: c_str_def strncpy_c_str tw_def)
  qed
  have twl: "length tw \<le> length line - 1"
    unfolding tw_def
    using length_takeWhile_le[of "\<lambda>c. c \<noteq> NUL" "take Sn (drop 1 line)"] by simp
  show "length (slot st i) = nat (sint S)" using len by (simp add: Sn_def)
  show "slot st i =
           takeWhile (\<lambda>c. c \<noteq> NUL) (take (nat (sint S)) (drop 1 (ls ! i))) @
           replicate (nat (sint S) -
             length (takeWhile (\<lambda>c. c \<noteq> NUL) (take (nat (sint S)) (drop 1 (ls ! i))))) NUL"
    using sl by (simp add: tw_def line_def Sn_def)
  show "slot st i = take (nat (sint S)) (drop 1 (ls ! i)) @
             replicate (nat (sint S) - (length (ls ! i) - 1)) NUL"
    if "NUL \<notin> set (drop 1 (ls ! i))"
  proof -
    have "\<forall>c \<in> set (take Sn (drop 1 line)). c \<noteq> NUL"
      using that set_take_subset[of Sn "drop 1 line"] by (auto simp: line_def)
    then have "tw = take Sn (drop 1 line)"
      unfolding tw_def by (simp only: takeWhile_eq_all_conv)
    with sl show ?thesis by (simp add: line_def Sn_def min_def)
  qed
  show "slot st i ! k = NUL" if "length (ls ! i) - 1 \<le> k" "k < nat (sint S)"
  proof -
    from that twl have "length tw \<le> k" "k - length tw < Sn - length tw"
      by (simp_all add: line_def Sn_def)
    then show ?thesis by (simp add: sl nth_append)
  qed
qed

lemma slot_padded_and_truncated_example:
  "\<exists>st. Sequences_ctor \<lparr>new_sequences_buffer = True, new_sequences_len = True,
           file_lines = Some [''>ACGTACGT'', ''<AC'']\<rparr> 4 1 = Inr st \<and>
        slot st 0 = ''ACGT'' \<and> slot st 1 = [CHR ''A'', CHR ''C'', NUL, NUL]"
proof -
  let ?ls = "[''>ACGTACGT'', ''<AC'']"
  let ?env = "\<lparr>new_sequences_buffer = True, new_sequences_len = True, file_lines = Some ?ls\<rparr>"
  let ?st = "\<lparr>seq_len = 4, num_alignments = 1,
      sequences_buffer = [CHR ''A'', CHR ''C'', CHR ''G'', CHR ''T'', CHR ''A'', CHR ''C'', NUL, NUL],
      sequences_len = [Some 8, Some 2]\<rparr>"
  have c: "Sequences_ctor ?env 4 1 = Inr ?st" by code_simp
  have s: "slot ?st 0 = ''ACGT''" "slot ?st 1 = [CHR ''A'', CHR ''C'', NUL, NUL]"
    by (simp_all add: slot_def)
  from c s show ?thesis by simp
qed

text \<open>
  That description never applies to a file with an empty line among the lines that are
  read, when \<open>seq_len\<close> is positive: the constructor then returns no store, because the
  copy for the empty line reads behind the line's terminator.
\<close>

lemma empty_line_no_store:
  fixes S N :: cint
  assumes "file_lines env = Some ls" and "0 < sint S" and "0 \<le> sint N"
    and "i < length ls" and "i < 2 * nat (sint N)" and "ls ! i = []"
  shows "Sequences_ctor env S N \<noteq> Inr st"
proof
  assume c: "Sequences_ctor env S N = Inr st"
  have S: "0 \<le> sint S" using assms(2) by simp
  from ctor_reads(4)[OF assms(1) c S assms(3,4,5)]
  have "strncpy [] (nat (sint S)) = Some (slot st i)"
    by (simp add: assms(6) c_str_def)
  then have "nat (sint S) = 0" by (rule strncpy_Nil)
  with assms(2) show False by simp
qed

text \<open>
  C6: the specification states that, in the populated store, every slot is zero from
  the sequence's length on, and holds at most \<open>seq_len\<close> characters of its line. For the
  file with the lines \<open>>AC\<close> and an empty one, a stride of 4 and one pair: the first line
  is stored as \<open>AC\<close> and two zeros, as stated. For the empty line the sequence has no
  characters and its slot should stay zero, but the copy starts at
  \<open>line.c_str() + 1\<close>, behind the terminator of the empty string, so \<open>strncpy\<close> fills
  the slot from bytes that are not part of the line (with the usual library, the
  characters the line buffer still holds from the line before). No store with the
  stated property results.
\<close>

theorem empty_line_slot_not_padded:
  "store_line 4 ''>AC'' 0
     \<lparr>seq_len = 4, num_alignments = 1, sequences_buffer = replicate 8 NUL,
      sequences_len = [None, None]\<rparr> =
     Some \<lparr>seq_len = 4, num_alignments = 1,
           sequences_buffer = [CHR ''A'', CHR ''C'', NUL, NUL, NUL, NUL, NUL, NUL],
           sequences_len = [Some 2, None]\<rparr> \<and>
   store_line 4 [] 1
     \<lparr>seq_len = 4, num_alignments = 1,
      sequences_buffer = [CHR ''A'', CHR ''C'', NUL, NUL, NUL, NUL, NUL, NUL],
      sequences_len = [Some 2, None]\<rparr> = None \<and>
   Sequences_ctor \<lparr>new_sequences_buffer = True, new_sequences_len = True,
      file_lines = Some [''>AC'', []]\<rparr> 4 1 = Inl ([], Undefined)"
  by code_simp

text \<open>
  C7: the length stored for a line that was read is the line's length minus 1, not
  clamped: for a line of more than \<open>seq_len + 1\<close> characters it is greater than
  \<open>seq_len\<close>. The bound on the line's length is the range of \<open>int\<close>.
\<close>

theorem recorded_length_unclamped:
  fixes S N :: cint
  assumes "file_lines env = Some ls" and "Sequences_ctor env S N = Inr st"
    and "0 \<le> sint S" and "0 \<le> sint N"
    and "i < length ls" and "i < 2 * nat (sint N)"
    and "length (ls ! i) \<le> 2 ^ 31"
  shows "\<exists>v. sequences_len st ! i = Some v \<and> sint v = int (length (ls ! i)) - 1 \<and>
             (nat (sint S) + 1 < length (ls ! i) \<longrightarrow> sint S < sint v)"
proof -
  define v :: cint where "v = ucast (of_nat (length (ls ! i)) - 1 :: size_t)"
  have "sequences_len st ! i = Some v"
    using ctor_reads(4)[OF assms(1-6)] by (simp add: v_def)
  moreover have sv: "sint v = int (length (ls ! i)) - 1"
    unfolding v_def by (rule stored_length_value[OF assms(7)])
  moreover have "sint S < sint v" if "nat (sint S) + 1 < length (ls ! i)"
    using that assms(3) sv by simp
  ultimately show ?thesis by blast
qed

theorem recorded_length_unclamped_witness:
  "\<exists>st v. Sequences_ctor \<lparr>new_sequences_buffer = True, new_sequences_len = True,
           file_lines = Some [''>ACGTACGT'', ''<AC'']\<rparr> 4 1 = Inr st \<and>
        sequences_len st ! 0 = Some v \<and> sint v = 8 \<and> sint (4 :: cint) < sint v"
proof -
  let ?ls = "[''>ACGTACGT'', ''<AC'']"
  let ?env = "\<lparr>new_sequences_buffer = True, new_sequences_len = True, file_lines = Some ?ls\<rparr>"
  let ?st = "\<lparr>seq_len = 4, num_alignments = 1,
      sequences_buffer = [CHR ''A'', CHR ''C'', CHR ''G'', CHR ''T'', CHR ''A'', CHR ''C'', NUL, NUL],
      sequences_len = [Some 8, Some 2]\<rparr>"
  have c: "Sequences_ctor ?env 4 1 = Inr ?st" by code_simp
  from recorded_length_unclamped[of ?env ?ls 4 1 ?st 0] c show ?thesis by simp
qed

lemma empty_line_read_outside:
  "0 < unat (size_t_of_int S) \<Longrightarrow> store_line S [] n s = None"
  by (cases "unat (size_t_of_int S)") (simp_all add: store_line_def c_str_def)

text \<open>
  C9: for an empty line \<open>line.length() - 1\<close> wraps around and becomes \<open>-1\<close> as an
  \<open>int\<close>, as the specification states. But \<open>line.c_str() + 1\<close> then points behind the
  terminator of the empty string, and \<open>strncpy\<close> with a stride of 4 reads from there:
  the slot receives bytes that are not part of the line, and the run has no defined
  result.
\<close>

theorem empty_line_undefined:
  "Sequences_ctor \<lparr>new_sequences_buffer = True, new_sequences_len = True,
      file_lines = Some [''>ACGT'', []]\<rparr> 4 1 = Inl ([], Undefined) \<and>
   strncpy (drop 1 (c_str [])) 4 = None \<and>
   sint (ucast (of_nat (length ([] :: string)) - 1 :: size_t) :: cint) = - 1"
  by code_simp

lemma memcpy_write:
  assumes "memcpy dest doff src soff n = Some h"
  shows "soff + n \<le> length src" and "write_bytes dest doff (take n (drop soff src)) = Some h"
proof -
  from assms have a: "soff + n \<le> length src" "doff + n \<le> length dest"
    and h: "h = take doff dest @ take n (drop soff src) @ drop (doff + n) dest"
    by (auto simp: memcpy_def split: if_splits)
  from a have l: "length (take n (drop soff src)) = n" by simp
  show "soff + n \<le> length src" by (rule a(1))
  show "write_bytes dest doff (take n (drop soff src)) = Some h"
    unfolding write_bytes_def l using a(2) h by simp
qed

lemma host_slot_here:
  assumes w: "write_bytes h (k * i) bs = Some h'" and bs: "length bs = k"
  shows "host_slot k h' i = bs"
  using write_bytes_here[OF w] by (simp add: host_slot_def bs mult.commute)

lemma host_slot_other:
  assumes w: "write_bytes h (k * m) bs = Some h'" and bs: "length bs = k" and i: "i \<noteq> m"
  shows "host_slot k h' i = host_slot k h i"
proof (rule nth_equalityI)
  show "length (host_slot k h' i) = length (host_slot k h i)"
    using write_bytes_length[OF w] by (simp add: host_slot_def)
next
  fix q assume "q < length (host_slot k h' i)"
  then have q: "q < k" "k * i + q < length h"
    using write_bytes_length[OF w] by (auto simp: host_slot_def)
  have "k * i + q < k * m \<or> k * m + length bs \<le> k * i + q"
  proof (cases "i < m")
    case True
    then have "Suc i \<le> m" by simp
    then have "k * Suc i \<le> k * m" by (rule mult_le_mono2)
    with q show ?thesis by simp
  next
    case False
    with i have "Suc m \<le> i" by simp
    then have "k * Suc m \<le> k * i" by (rule mult_le_mono2)
    then show ?thesis by (simp add: bs)
  qed
  then have "h' ! (k * i + q) = h ! (k * i + q)"
    by (rule write_bytes_nth[OF w])
  with q show "host_slot k h' i ! q = host_slot k h i ! q"
    using write_bytes_length[OF w] by (simp add: host_slot_def)
qed

lemma uint32_succ:
  fixes i n :: uint32
  assumes "i < n"
  shows "unat (i + 1) = unat i + 1"
proof -
  from assms have "unat i < unat n" by (simp add: word_less_nat_alt)
  moreover have "unat n < 2 ^ 32" using unsigned_less[of n, where 'a=nat] by simp
  ultimately have "unat i + unat (1 :: uint32) < 2 ^ LENGTH(32)" by simp
  then show ?thesis by (simp only: unat_add_lem) simp
qed

lemma source_offset:
  fixes j :: uint32 and off :: size_t
  assumes Sn: "unat (seq_len s) < 2 ^ 31" and off: "unat off < 2 ^ 32"
  shows "unat (get_sequence s (off + ucast j)) = unat (seq_len s) * (unat off + unat j)"
proof -
  have j: "unat j < 2 ^ 32" using unsigned_less[of j, where 'a=nat] by simp
  have uj: "unat (ucast j :: size_t) = unat j"
    using j by (simp add: unsigned_ucast_eq take_bit_nat_eq_self)
  have "unat off + unat (ucast j :: size_t) < 2 ^ LENGTH(64)" using off j by (simp add: uj)
  then have "unat (off + ucast j) = unat off + unat (ucast j :: size_t)"
    by (simp only: unat_add_lem)
  then have sum: "unat (off + ucast j) = unat off + unat j" by (simp only: uj)
  have "unat (seq_len s) * (unat off + unat j) \<le> (2 ^ 31 - 1) * 2 ^ 33"
    using Sn off j by (intro mult_mono) simp_all
  then have "unat (seq_len s) * unat (off + ucast j) < 2 ^ LENGTH(64)"
    by (simp add: sum)
  then have "unat (seq_len s * (off + ucast j)) = unat (seq_len s) * unat (off + ucast j)"
    by (simp only: unat_mult_lem)
  then show ?thesis by (simp only: get_sequence_def sum)
qed


lemma copy_step:
  fixes i n len j :: uint32 and off :: size_t
  assumes m: "memcpy h (unat (i * len)) (sequences_buffer s)
                (unat (get_sequence s (off + ucast j))) (unat (seq_len s)) = Some h1"
    and i: "i < n" and len: "unat len = unat (seq_len s)"
    and Sn: "unat (seq_len s) < 2 ^ 31" and fit: "unat n * unat (seq_len s) < 2 ^ 32"
    and off: "unat off < 2 ^ 32"
  shows "length h1 = length h"
    and "host_slot (unat (seq_len s)) h1 (unat i) = slot s (unat off + unat j)"
    and "length (slot s (unat off + unat j)) = unat (seq_len s)"
    and "k \<noteq> unat i \<Longrightarrow> host_slot (unat (seq_len s)) h1 k = host_slot (unat (seq_len s)) h k"
proof -
  define bs where "bs = slot s (unat off + unat j)"
  from i have "unat i \<le> unat n" by (simp add: word_less_nat_alt)
  then have "unat i * unat (seq_len s) \<le> unat n * unat (seq_len s)" by (rule mult_le_mono1)
  then have "unat i * unat (seq_len s) < 2 ^ 32" using fit by (rule order_le_less_trans)
  then have "unat i * unat len < 2 ^ LENGTH(32)" by (simp add: len)
  then have "unat (i * len) = unat i * unat len" by (simp only: unat_mult_lem)
  then have doff: "unat (i * len) = unat (seq_len s) * unat i" by (simp add: len mult.commute)
  note soff = source_offset[OF Sn off, of j]
  from memcpy_write[OF m] have
    r: "unat (seq_len s) * (unat off + unat j) + unat (seq_len s) \<le> length (sequences_buffer s)"
    and w: "write_bytes h (unat (seq_len s) * unat i) bs = Some h1"
    by (simp_all add: soff doff bs_def slot_def)
  from r have l: "length bs = unat (seq_len s)" by (simp add: bs_def slot_def)
  show "length h1 = length h" by (rule write_bytes_length[OF w])
  show "host_slot (unat (seq_len s)) h1 (unat i) = slot s (unat off + unat j)"
    using host_slot_here[OF w l] by (simp add: bs_def)
  show "length (slot s (unat off + unat j)) = unat (seq_len s)" using l by (simp add: bs_def)
  show "host_slot (unat (seq_len s)) h1 k = host_slot (unat (seq_len s)) h k" if "k \<noteq> unat i"
    by (rule host_slot_other[OF w l that])
qed

lemma copy_patterns_inv:
  assumes "copy_patterns s off n len i h = Some h'"
    and len: "unat len = unat (seq_len s)"
    and Sn: "unat (seq_len s) < 2 ^ 31" and fit: "unat n * unat (seq_len s) < 2 ^ 32"
    and off: "unat off < 2 ^ 32" and n: "unat n < 2 ^ 31"
  shows "length h' = length h \<and>
         (\<forall>k. unat i \<le> k \<and> k < unat n \<longrightarrow>
              host_slot (unat (seq_len s)) h' k = slot s (unat off + 2 * k) \<and>
              length (slot s (unat off + 2 * k)) = unat (seq_len s)) \<and>
         (\<forall>k. k < unat i \<longrightarrow> host_slot (unat (seq_len s)) h' k = host_slot (unat (seq_len s)) h k)"
  using assms
proof (induction s off n len i h rule: copy_patterns.induct)
  case (1 s off n len i h)
  show ?case
  proof (cases "i < n")
    case False
    with "1.prems"(1) have "h' = h" by (subst (asm) copy_patterns.simps) simp
    moreover from False have "unat n \<le> unat i" by (simp add: word_less_nat_alt)
    ultimately show ?thesis by auto
  next
    case True
    with "1.prems"(1) obtain h1 where
      m: "memcpy h (unat (i * len)) (sequences_buffer s)
            (unat (get_sequence s (off + ucast (i * 2)))) (unat (seq_len s)) = Some h1"
      and rest: "copy_patterns s off n len (i + 1) h1 = Some h'"
      by (subst (asm) copy_patterns.simps) (auto split: option.splits)
    note i1 = uint32_succ[OF True]
    from True have ilt: "unat i < unat n" by (simp add: word_less_nat_alt)
    with "1.prems"(6) have "unat i * unat (2 :: uint32) < 2 ^ LENGTH(32)" by simp
    then have "unat (i * 2) = unat i * unat (2 :: uint32)" by (simp only: unat_mult_lem)
    then have i2: "unat (i * 2) = 2 * unat i" by simp
    note st = copy_step[OF m True "1.prems"(2,3,4,5), unfolded i2]
    from "1.IH"[OF True m rest "1.prems"(2-6)] have
      ih_len: "length h' = length h1"
      and ih_got: "\<And>k. unat i + 1 \<le> k \<Longrightarrow> k < unat n \<Longrightarrow>
          host_slot (unat (seq_len s)) h' k = slot s (unat off + 2 * k) \<and>
          length (slot s (unat off + 2 * k)) = unat (seq_len s)"
      and ih_keep: "\<And>k. k < unat i + 1 \<Longrightarrow>
          host_slot (unat (seq_len s)) h' k = host_slot (unat (seq_len s)) h1 k"
      unfolding i1 by blast+
    have got: "host_slot (unat (seq_len s)) h' k = slot s (unat off + 2 * k) \<and>
          length (slot s (unat off + 2 * k)) = unat (seq_len s)"
      if "unat i \<le> k" "k < unat n" for k
    proof (cases "k = unat i")
      case True
      with ih_keep[of k] st(2,3) show ?thesis by simp
    next
      case False
      with that have "unat i + 1 \<le> k" by simp
      from ih_got[OF this that(2)] show ?thesis .
    qed
    have keep: "host_slot (unat (seq_len s)) h' k = host_slot (unat (seq_len s)) h k"
      if "k < unat i" for k
      using ih_keep[of k] st(4)[of k] that by simp
    from ih_len st(1) got keep show ?thesis by simp
  qed
qed

lemma copy_texts_inv:
  assumes "copy_texts s off n len i h = Some h'"
    and len: "unat len = unat (seq_len s)"
    and Sn: "unat (seq_len s) < 2 ^ 31" and fit: "unat n * unat (seq_len s) < 2 ^ 32"
    and off: "unat off < 2 ^ 32" and n: "unat n < 2 ^ 31"
  shows "length h' = length h \<and>
         (\<forall>k. unat i \<le> k \<and> k < unat n \<longrightarrow>
              host_slot (unat (seq_len s)) h' k = slot s (unat off + 2 * k + 2) \<and>
              length (slot s (unat off + 2 * k + 2)) = unat (seq_len s)) \<and>
         (\<forall>k. k < unat i \<longrightarrow> host_slot (unat (seq_len s)) h' k = host_slot (unat (seq_len s)) h k)"
  using assms
proof (induction s off n len i h rule: copy_texts.induct)
  case (1 s off n len i h)
  show ?case
  proof (cases "i < n")
    case False
    with "1.prems"(1) have "h' = h" by (subst (asm) copy_texts.simps) simp
    moreover from False have "unat n \<le> unat i" by (simp add: word_less_nat_alt)
    ultimately show ?thesis by auto
  next
    case True
    with "1.prems"(1) obtain h1 where
      m: "memcpy h (unat (i * len)) (sequences_buffer s)
            (unat (get_sequence s (off + ucast ((i + 1) * 2)))) (unat (seq_len s)) = Some h1"
      and rest: "copy_texts s off n len (i + 1) h1 = Some h'"
      by (subst (asm) copy_texts.simps) (auto split: option.splits)
    note i1 = uint32_succ[OF True]
    from True have ilt: "unat i < unat n" by (simp add: word_less_nat_alt)
    with "1.prems"(6) have "unat (i + 1) * unat (2 :: uint32) < 2 ^ LENGTH(32)" by (simp add: i1)
    then have "unat ((i + 1) * 2) = unat (i + 1) * unat (2 :: uint32)" by (simp only: unat_mult_lem)
    then have i2: "unat ((i + 1) * 2) = 2 * unat i + 2" by (simp add: i1)
    note st = copy_step[OF m True "1.prems"(2,3,4,5), unfolded i2]
    from "1.IH"[OF True m rest "1.prems"(2-6)] have
      ih_len: "length h' = length h1"
      and ih_got: "\<And>k. unat i + 1 \<le> k \<Longrightarrow> k < unat n \<Longrightarrow>
          host_slot (unat (seq_len s)) h' k = slot s (unat off + 2 * k + 2) \<and>
          length (slot s (unat off + 2 * k + 2)) = unat (seq_len s)"
      and ih_keep: "\<And>k. k < unat i + 1 \<Longrightarrow>
          host_slot (unat (seq_len s)) h' k = host_slot (unat (seq_len s)) h1 k"
      unfolding i1 by blast+
    have got: "host_slot (unat (seq_len s)) h' k = slot s (unat off + 2 * k + 2) \<and>
          length (slot s (unat off + 2 * k + 2)) = unat (seq_len s)"
      if "unat i \<le> k" "k < unat n" for k
    proof (cases "k = unat i")
      case True
      with ih_keep[of k] st(2,3) show ?thesis by (simp add: add.assoc)
    next
      case False
      with that have "unat i + 1 \<le> k" by simp
      from ih_got[OF this that(2)] show ?thesis .
    qed
    have keep: "host_slot (unat (seq_len s)) h' k = host_slot (unat (seq_len s)) h k"
      if "k < unat i" for k
      using ih_keep[of k] st(4)[of k] that by simp
    from ih_len st(1) got keep show ?thesis by simp
  qed
qed


lemma batch_alignment_test_slots:
  assumes b: "batch_alignment_test s off n = Some (hp, ht)"
    and Sn: "unat (seq_len s) < 2 ^ 31" and fit: "unat n * unat (seq_len s) < 2 ^ 32"
    and off: "unat off < 2 ^ 32" and n: "unat n < 2 ^ 31" and k: "k < unat n"
  shows "host_slot (unat (seq_len s)) hp k = slot s (unat off + 2 * k)"
    and "host_slot (unat (seq_len s)) ht k = slot s (unat off + 2 * k + 2)"
    and "length (slot s (unat off + 2 * k)) = unat (seq_len s)"
    and "length (slot s (unat off + 2 * k + 2)) = unat (seq_len s)"
proof -
  define len :: uint32 where "len = ucast (seq_len s)"
  have len: "unat len = unat (seq_len s)"
    using Sn by (simp add: len_def unsigned_ucast_eq take_bit_nat_eq_self)
  from b obtain h0 h1 where
    p: "copy_patterns s off n len 0 h0 = Some hp" and t: "copy_texts s off n len 0 h1 = Some ht"
    by (auto simp: batch_alignment_test_def Let_def len_def split: option.splits)
  from copy_patterns_inv[OF p len Sn fit off n] k
  show "host_slot (unat (seq_len s)) hp k = slot s (unat off + 2 * k)"
    and "length (slot s (unat off + 2 * k)) = unat (seq_len s)" by simp_all
  from copy_texts_inv[OF t len Sn fit off n] k
  show "host_slot (unat (seq_len s)) ht k = slot s (unat off + 2 * k + 2)"
    and "length (slot s (unat off + 2 * k + 2)) = unat (seq_len s)" by simp_all
qed

text \<open>
  C1: the specification states that slot \<open>k\<close> of the pattern buffer copies slot
  \<open>2 * (batch_offset + k)\<close> of the store and slot \<open>k\<close> of the text buffer slot
  \<open>2 * (batch_offset + k) + 1\<close>. The loops read slot \<open>batch_offset + 2 * k\<close> and slot
  \<open>batch_offset + 2 * k + 2\<close> (\<open>batch_alignment_test_slots\<close>, for every batch whose
  copies stay inside the arrays). For the file of two pairs (A, T) and (C, G): the
  batch at offset 0 gets the text C, the pattern of the next pair, where slot 1 holds
  T; the batch at offset 1 gets the pattern T, the text of pair 0, where slot 2 holds
  C; and one batch of both pairs reads its last text from slot 4, behind the store.
\<close>

theorem text_slot_is_next_pattern:
  "Sequences_ctor \<lparr>new_sequences_buffer = True, new_sequences_len = True,
      file_lines = Some [''>AAAA'', ''<TTTT'', ''>CCCC'', ''<GGGG'']\<rparr> 4 2 =
     Inr \<lparr>seq_len = 4, num_alignments = 2, sequences_buffer = ''AAAATTTTCCCCGGGG'',
          sequences_len = [Some 4, Some 4, Some 4, Some 4]\<rparr> \<and>
   batch_alignment_test \<lparr>seq_len = 4, num_alignments = 2, sequences_buffer = ''AAAATTTTCCCCGGGG'',
          sequences_len = [Some 4, Some 4, Some 4, Some 4]\<rparr> 0 1 = Some (''AAAA'', ''CCCC'') \<and>
   batch_alignment_test \<lparr>seq_len = 4, num_alignments = 2, sequences_buffer = ''AAAATTTTCCCCGGGG'',
          sequences_len = [Some 4, Some 4, Some 4, Some 4]\<rparr> 1 1 = Some (''TTTT'', ''GGGG'') \<and>
   batch_alignment_test \<lparr>seq_len = 4, num_alignments = 2, sequences_buffer = ''AAAATTTTCCCCGGGG'',
          sequences_len = [Some 4, Some 4, Some 4, Some 4]\<rparr> 0 2 = None \<and>
   slot \<lparr>seq_len = 4, num_alignments = 2, sequences_buffer = ''AAAATTTTCCCCGGGG'',
          sequences_len = [Some 4, Some 4, Some 4, Some 4]\<rparr> 1 = ''TTTT'' \<and>
   slot \<lparr>seq_len = 4, num_alignments = 2, sequences_buffer = ''AAAATTTTCCCCGGGG'',
          sequences_len = [Some 4, Some 4, Some 4, Some 4]\<rparr> 2 = ''CCCC''"
  by code_simp

text \<open>
  The same store in a run of \<open>main\<close> with the default batch size: the batch size
  becomes 2, the one call is \<open>(0, 2)\<close>, and its last text is read behind the store.
\<close>

lemma single_batch_reads_behind_store:
  "main (\<lambda>s. if s = ''4'' then 4 else if s = ''2'' then 2 else 0)
        \<lparr>new_sequences_buffer = True, new_sequences_len = True,
         file_lines = Some [''>AAAA'', ''<TTTT'', ''>CCCC'', ''<GGGG'']\<rparr>
        (\<lambda>off sz. 3) [''nvbio-benchmarks'', ''pairs.seq'', ''4'', ''2''] =
     Some (Undefined,
           \<lparr>total_time = 3, alignments_computed = 2, cnt = 1, calls = [(0, 2)],
            cerr = [BatchSizeChanged 2, BatchExecuted 0], defined = False\<rparr>)"
  by code_simp

lemma cell_updates_in_range:
  fixes num seq_size :: cint
  assumes "0 \<le> sint num" and "0 \<le> sint seq_size" and "sint seq_size * sint seq_size < 2 ^ 31"
  shows "\<exists>cells. cell_updates num seq_size = Some cells \<and>
           unat cells = nat (sint num) * (nat (sint seq_size) * nat (sint seq_size))"
proof -
  define sq :: cint where "sq = word_of_int (sint seq_size * sint seq_size)"
  have r: "- (2 ^ 31) \<le> sint seq_size * sint seq_size"
    using assms(2) by (simp add: order_trans[of _ 0])
  have im: "int_mul seq_size seq_size = Some sq"
    using assms(3) r by (simp add: int_mul_def sq_def)
  have s: "sint sq = sint seq_size * sint seq_size"
    unfolding sq_def by (rule sint_word_of_int[OF r assms(3)])
  then have s0: "0 \<le> sint sq" using assms(2) by simp
  have u: "unat (size_t_of_int sq) = nat (sint seq_size) * nat (sint seq_size)"
    using unat_size_t_of_int[OF s0] assms(2) by (simp add: s nat_mult_distrib)
  have "nat (sint num) * nat (sint sq) \<le> 2 ^ 31 * 2 ^ 31"
    using cint_nonneg(1)[OF assms(1)] cint_nonneg(1)[OF s0] by (intro mult_mono) simp_all
  then have "unat (size_t_of_int num) * unat (size_t_of_int sq) < 2 ^ LENGTH(64)"
    by (simp add: unat_size_t_of_int[OF assms(1)] unat_size_t_of_int[OF s0])
  then have "unat (size_t_of_int num * size_t_of_int sq) =
      unat (size_t_of_int num) * unat (size_t_of_int sq)"
    by (simp only: unat_mult_lem)
  then show ?thesis
    by (simp add: cell_updates_def im u unat_size_t_of_int[OF assms(1)])
qed

text \<open>
  C5: the specification states that the report is \<open>total_pairs * stride\<^sup>2\<close> over the time. The
  square is computed in \<open>int\<close> before the conversion to \<open>uint64_t\<close>: for a stride of
  46341 it is outside the range of \<open>int\<close>. For 100 pairs of stride 64 the operand
  is 409600.
\<close>

theorem square_overflows:
  "cell_updates 1 46341 = None \<and> cell_updates 100 64 = Some 409600"
  by code_simp

end
